theory Spec2Isabelle
  imports Main "HOL-Library.Word"
begin

unbundle bit_operations_syntax

section \<open>The c-ares event driver of gRPC (posix)\<close>

text \<open>
  A shallow embedding of \<^verbatim>\<open>grpc_ares_ev_driver_posix.c\<close>.

  \<^item> An \<^verbatim>\<open>fd_node *\<close> is an address; the heap of nodes is a list of cells indexed
    by address, \<open>None\<close> for a freed cell. \<^verbatim>\<open>gpr_malloc\<close> takes the next cell.
  \<^item> The singly linked list \<^verbatim>\<open>ev_driver->fds\<close> (chained through \<^verbatim>\<open>next\<close>) is the
    list of the addresses of its nodes, head first.
  \<^item> Calls into the reactor, the pollset set, the engine and the mutexes are
    appended to a trace, in program order. Calls to \<^verbatim>\<open>gpr_log\<close> and the debug name
    of a wrapped descriptor are left out.
  \<^item> What \<^verbatim>\<open>ares_getsock\<close> answers is an argument of every operation that asks.
  \<^item> A failed \<^verbatim>\<open>GPR_ASSERT\<close>, a dereference of \<^verbatim>\<open>NULL\<close> and a dereference of a
    freed node are errors.
\<close>

subsection \<open>Data\<close>

type_synonym addr = nat

datatype error = Assertion_failed | Null_dereference | Invalid_pointer

datatype grpc_error = GRPC_ERROR_NONE | GRPC_ERROR_CREATE string

datatype mutex = Driver_mu | Node_mu addr

datatype event =
    Mu_init mutex
  | Mu_lock mutex
  | Mu_unlock mutex
  | Mu_destroy mutex
  | Fd_create addr int
  | Pollset_set_add_fd addr
  | Pollset_set_del_fd addr
  | Fd_shutdown addr
  | Fd_orphan addr
  | Fd_notify_on_read addr
  | Fd_notify_on_write addr
  | Store_readable_registered addr bool
  | Store_writable_registered addr bool
  | Gpr_free addr
  | Ares_getsock
  | Ares_process_fd int int
  | Ares_cancel
  | Ares_destroy
  | Sched_cleanup

text \<open>\<^verbatim>\<open>struct fd_node\<close>: the reference count, the descriptor wrapped by the node's
  \<^verbatim>\<open>grpc_fd\<close> (what \<^verbatim>\<open>grpc_fd_wrapped_fd\<close> returns) and the two flags. A \<^verbatim>\<open>grpc_fd\<close>
  belongs to one node, so the trace names it by the address of its node.\<close>

record fd_node =
  refs :: int
  grpc_fd :: int
  readable_registered :: bool
  writable_registered :: bool

text \<open>The memory of nodes, \<^verbatim>\<open>struct grpc_ares_ev_driver\<close> (\<open>fds\<close>, \<open>working\<close>) and the
  trace.\<close>

record state =
  nodes :: "fd_node option list"
  fds :: "addr list"
  working :: bool
  trace :: "event list"

text \<open>One answer of \<^verbatim>\<open>ares_getsock\<close>: the array \<^verbatim>\<open>socks\<close> and the bitmask.\<close>

record snapshot =
  socks :: "nat \<Rightarrow> int"
  socks_bitmask :: "32 word"

text \<open>From \<^verbatim>\<open>ares.h\<close>.\<close>

definition ARES_GETSOCK_MAXNUM :: nat where
  "ARES_GETSOCK_MAXNUM = 16"

definition ARES_SOCKET_BAD :: int where
  "ARES_SOCKET_BAD = - 1"

definition ARES_SUCCESS :: int where
  "ARES_SUCCESS = 0"

definition ARES_GETSOCK_READABLE :: "32 word \<Rightarrow> nat \<Rightarrow> bool" where
  "ARES_GETSOCK_READABLE bits num = (bits AND push_bit num 1 \<noteq> 0)"

definition ARES_GETSOCK_WRITABLE :: "32 word \<Rightarrow> nat \<Rightarrow> bool" where
  "ARES_GETSOCK_WRITABLE bits num = (bits AND push_bit (num + ARES_GETSOCK_MAXNUM) 1 \<noteq> 0)"

subsection \<open>Memory and trace\<close>

definition node_at :: "state \<Rightarrow> addr \<Rightarrow> fd_node option" where
  "node_at s a = (if a < length (nodes s) then nodes s ! a else None)"

definition put_node :: "addr \<Rightarrow> fd_node \<Rightarrow> state \<Rightarrow> state" where
  "put_node a n s = s\<lparr>nodes := (nodes s)[a := Some n]\<rparr>"

definition free_node :: "addr \<Rightarrow> state \<Rightarrow> state" where
  "free_node a s = s\<lparr>nodes := (nodes s)[a := None]\<rparr>"

definition emit :: "event list \<Rightarrow> state \<Rightarrow> state" where
  "emit es s = s\<lparr>trace := trace s @ es\<rparr>"

subsection \<open>Reference counting\<close>

definition fd_node_ref :: "addr \<Rightarrow> state \<Rightarrow> error + state" where
  "fd_node_ref fdn s =
     (case node_at s fdn of
        None \<Rightarrow> Inl Invalid_pointer
      | Some n \<Rightarrow> Inr (put_node fdn (n\<lparr>refs := refs n + 1\<rparr>) s))"

text \<open>\<^verbatim>\<open>gpr_unref\<close> decrements and says whether the count reached zero.\<close>

definition fd_node_unref :: "addr \<Rightarrow> state \<Rightarrow> error + state" where
  "fd_node_unref fdn s =
     (case node_at s fdn of
        None \<Rightarrow> Inl Invalid_pointer
      | Some n \<Rightarrow>
          if refs n - 1 = 0 then
            if readable_registered n then Inl Assertion_failed
            else if writable_registered n then Inl Assertion_failed
            else Inr (emit [Mu_destroy (Node_mu fdn), Pollset_set_del_fd fdn,
                            Fd_shutdown fdn, Fd_orphan fdn, Gpr_free fdn]
                       (free_node fdn s))
          else Inr (put_node fdn (n\<lparr>refs := refs n - 1\<rparr>) s))"

subsection \<open>Creation and teardown\<close>

text \<open>Modelled from the spec: \<^verbatim>\<open>grpc_ares_init\<close> and \<^verbatim>\<open>grpc_ares_cleanup\<close> are defined
  in another file. The spec describes a process-wide initialisation count of the
  engine library, incremented on each driver's creation and decremented on
  destruction. The result of the library's initialisation is an argument.\<close>

definition grpc_ares_init :: "grpc_error \<Rightarrow> nat \<Rightarrow> grpc_error \<times> nat" where
  "grpc_ares_init r lib = (if r = GRPC_ERROR_NONE then (r, lib + 1) else (r, lib))"

definition grpc_ares_cleanup :: "nat \<Rightarrow> nat" where
  "grpc_ares_cleanup lib = lib - 1"

text \<open>What the caller's \<^verbatim>\<open>*ev_driver\<close> holds after \<^verbatim>\<open>grpc_ares_ev_driver_create\<close>: it
  was not written, it points to freed memory, or it points to a driver.\<close>

datatype driver_ptr = Unwritten | Freed | Driver state

text \<open>\<^verbatim>\<open>grpc_ares_ev_driver_create\<close>: \<open>r\<close> is what the library's initialisation
  returns, \<open>status\<close> what \<^verbatim>\<open>ares_init\<close> returns, \<open>lib\<close> the process-wide count. The
  result is the returned error, \<^verbatim>\<open>*ev_driver\<close> and the count.\<close>

definition grpc_ares_ev_driver_create ::
  "(int \<Rightarrow> string) \<Rightarrow> grpc_error \<Rightarrow> int \<Rightarrow> nat \<Rightarrow> grpc_error \<times> driver_ptr \<times> nat" where
  "grpc_ares_ev_driver_create ares_strerror r status lib =
     (case grpc_ares_init r lib of (err, lib1) \<Rightarrow>
        if err \<noteq> GRPC_ERROR_NONE then (err, Unwritten, lib1)
        else if status \<noteq> ARES_SUCCESS then
          (GRPC_ERROR_CREATE (''Failed to init ares channel. C-ares error: '' @ ares_strerror status),
           Freed, lib1)
        else
          (GRPC_ERROR_NONE,
           Driver \<lparr>nodes = [], fds = [], working = False, trace = [Mu_init Driver_mu]\<rparr>,
           lib1))"

text \<open>\<^verbatim>\<open>grpc_ares_ev_driver_cleanup\<close>, the deferred teardown.\<close>

definition grpc_ares_ev_driver_cleanup :: "grpc_error \<Rightarrow> state \<Rightarrow> nat \<Rightarrow> error + state \<times> nat" where
  "grpc_ares_ev_driver_cleanup err s lib =
     (if err \<noteq> GRPC_ERROR_NONE then Inl Assertion_failed
      else if fds s \<noteq> [] then Inl Assertion_failed
      else Inr (emit [Mu_lock Driver_mu, Mu_unlock Driver_mu, Mu_destroy Driver_mu, Ares_destroy] s,
                grpc_ares_cleanup lib))"

text \<open>The loop of \<^verbatim>\<open>grpc_ares_ev_driver_destroy\<close>. The body shuts the node down and
  moves \<^verbatim>\<open>fdn\<close> to the next node; the step of the \<^verbatim>\<open>for\<close> then reads \<^verbatim>\<open>fdn->next\<close>
  again, which dereferences \<^verbatim>\<open>NULL\<close> when the body has reached the end of the
  list.\<close>

fun destroy_loop :: "addr list \<Rightarrow> state \<Rightarrow> error + state" where
  "destroy_loop [] s = Inr s"
| "destroy_loop [fdn] s =
     (case node_at s fdn of
        None \<Rightarrow> Inl Invalid_pointer
      | Some n \<Rightarrow> Inl Null_dereference)"
| "destroy_loop (fdn # nxt # rest) s =
     (case node_at s fdn of
        None \<Rightarrow> Inl Invalid_pointer
      | Some n \<Rightarrow>
          (case node_at s nxt of
             None \<Rightarrow> Inl Invalid_pointer
           | Some m \<Rightarrow> destroy_loop rest (emit [Fd_shutdown fdn] s)))"

definition grpc_ares_ev_driver_destroy :: "state \<Rightarrow> error + state" where
  "grpc_ares_ev_driver_destroy s =
     (case destroy_loop (fds s) (emit [Mu_lock Driver_mu] s) of
        Inl e \<Rightarrow> Inl e
      | Inr s1 \<Rightarrow> Inr (emit [Mu_unlock Driver_mu, Sched_cleanup] s1))"

subsection \<open>Reconciliation\<close>

text \<open>\<^verbatim>\<open>pop_fd_node\<close>: the first node of the list wrapping \<open>fd\<close>, and the list
  without it; the list is unchanged when there is none.\<close>

fun pop_fd_node :: "state \<Rightarrow> addr list \<Rightarrow> int \<Rightarrow> error + addr option \<times> addr list" where
  "pop_fd_node s [] fd = Inr (None, [])"
| "pop_fd_node s (a # rest) fd =
     (case node_at s a of
        None \<Rightarrow> Inl Invalid_pointer
      | Some n \<Rightarrow>
          if grpc_fd n = fd then Inr (Some a, rest)
          else (case pop_fd_node s rest fd of
                  Inl e \<Rightarrow> Inl e
                | Inr (r, rest') \<Rightarrow> Inr (r, a # rest')))"

text \<open>Lines 262 to 275: a new node for \<open>fd\<close>, with one reference, added to the
  pollset set.\<close>

definition new_fd_node :: "int \<Rightarrow> state \<Rightarrow> addr \<times> state" where
  "new_fd_node fd s =
     (let fdn = length (nodes s);
          n = \<lparr>refs = 1, grpc_fd = fd, readable_registered = False, writable_registered = False\<rparr>
      in (fdn,
          emit [Fd_create fdn fd, Store_readable_registered fdn False,
                Store_writable_registered fdn False, Mu_init (Node_mu fdn),
                Pollset_set_add_fd fdn]
            (s\<lparr>nodes := nodes s @ [Some n]\<rparr>)))"

text \<open>Lines 282 to 289 and 292 to 299: take a registration when the direction is
  wanted and not yet registered.\<close>

definition register_read :: "bool \<Rightarrow> addr \<Rightarrow> state \<Rightarrow> error + state" where
  "register_read wanted fdn s =
     (case node_at s fdn of
        None \<Rightarrow> Inl Invalid_pointer
      | Some n \<Rightarrow>
          if wanted \<and> \<not> readable_registered n then
            (case fd_node_ref fdn s of
               Inl e \<Rightarrow> Inl e
             | Inr s1 \<Rightarrow>
                 (case node_at s1 fdn of
                    None \<Rightarrow> Inl Invalid_pointer
                  | Some n1 \<Rightarrow>
                      Inr (emit [Fd_notify_on_read fdn, Store_readable_registered fdn True]
                             (put_node fdn (n1\<lparr>readable_registered := True\<rparr>) s1))))
          else Inr s)"

definition register_write :: "bool \<Rightarrow> addr \<Rightarrow> state \<Rightarrow> error + state" where
  "register_write wanted fdn s =
     (case node_at s fdn of
        None \<Rightarrow> Inl Invalid_pointer
      | Some n \<Rightarrow>
          if wanted \<and> \<not> writable_registered n then
            (case fd_node_ref fdn s of
               Inl e \<Rightarrow> Inl e
             | Inr s1 \<Rightarrow>
                 (case node_at s1 fdn of
                    None \<Rightarrow> Inl Invalid_pointer
                  | Some n1 \<Rightarrow>
                      Inr (emit [Fd_notify_on_write fdn, Store_writable_registered fdn True]
                             (put_node fdn (n1\<lparr>writable_registered := True\<rparr>) s1))))
          else Inr s)"

text \<open>The body of the \<^verbatim>\<open>for\<close> loop for slot \<open>i\<close>; \<open>new_list\<close> is the local list under
  construction.\<close>

definition slot_body :: "snapshot \<Rightarrow> nat \<Rightarrow> state \<times> addr list \<Rightarrow> error + state \<times> addr list" where
  "slot_body snap i sl =
     (case sl of (s, new_list) \<Rightarrow>
        if ARES_GETSOCK_READABLE (socks_bitmask snap) i \<or> ARES_GETSOCK_WRITABLE (socks_bitmask snap) i
        then
          (case pop_fd_node s (fds s) (socks snap i) of
             Inl e \<Rightarrow> Inl e
           | Inr (found, rest) \<Rightarrow>
               (case (case found of
                        Some a \<Rightarrow> (a, s\<lparr>fds := rest\<rparr>)
                      | None \<Rightarrow> new_fd_node (socks snap i) (s\<lparr>fds := rest\<rparr>)) of
                  (fdn, s1) \<Rightarrow>
                    (case register_read (ARES_GETSOCK_READABLE (socks_bitmask snap) i) fdn
                            (emit [Mu_lock (Node_mu fdn)] s1) of
                       Inl e \<Rightarrow> Inl e
                     | Inr s2 \<Rightarrow>
                         (case register_write (ARES_GETSOCK_WRITABLE (socks_bitmask snap) i) fdn s2 of
                            Inl e \<Rightarrow> Inl e
                          | Inr s3 \<Rightarrow> Inr (emit [Mu_unlock (Node_mu fdn)] s3, fdn # new_list)))))
        else Inr sl)"

fun slots_loop :: "snapshot \<Rightarrow> nat list \<Rightarrow> state \<times> addr list \<Rightarrow> error + state \<times> addr list" where
  "slots_loop snap [] sl = Inr sl"
| "slots_loop snap (i # is) sl =
     (case slot_body snap i sl of
        Inl e \<Rightarrow> Inl e
      | Inr sl1 \<Rightarrow> slots_loop snap is sl1)"

text \<open>Lines 306 to 311: every node left in the old list is unlinked, shut down and
  loses the reference of the list.\<close>

fun drop_remaining :: "addr list \<Rightarrow> state \<Rightarrow> error + state" where
  "drop_remaining [] s = Inr s"
| "drop_remaining (cur # rest) s =
     (case node_at s cur of
        None \<Rightarrow> Inl Invalid_pointer
      | Some n \<Rightarrow>
          (case fd_node_unref cur (emit [Fd_shutdown cur] (s\<lparr>fds := rest\<rparr>)) of
             Inl e \<Rightarrow> Inl e
           | Inr s1 \<Rightarrow> drop_remaining rest s1))"

definition grpc_ares_notify_on_event_locked :: "snapshot \<Rightarrow> state \<Rightarrow> error + state" where
  "grpc_ares_notify_on_event_locked snap s =
     (case slots_loop snap [0..<ARES_GETSOCK_MAXNUM] (emit [Ares_getsock] s, []) of
        Inl e \<Rightarrow> Inl e
      | Inr (s1, new_list) \<Rightarrow>
          (case drop_remaining (fds s1) s1 of
             Inl e \<Rightarrow> Inl e
           | Inr s2 \<Rightarrow>
               Inr (if new_list = [] then s2\<lparr>fds := new_list, working := False\<rparr>
                    else s2\<lparr>fds := new_list\<rparr>)))"

subsection \<open>The entry points\<close>

definition grpc_ares_ev_driver_start :: "snapshot \<Rightarrow> state \<Rightarrow> error + state" where
  "grpc_ares_ev_driver_start snap s =
     (if \<not> working s then
        (case grpc_ares_notify_on_event_locked snap (emit [Mu_lock Driver_mu] (s\<lparr>working := True\<rparr>)) of
           Inl e \<Rightarrow> Inl e
         | Inr s1 \<Rightarrow> Inr (emit [Mu_unlock Driver_mu] s1))
      else Inr (emit [Mu_lock Driver_mu, Mu_unlock Driver_mu] s))"

definition on_readable_cb :: "addr \<Rightarrow> grpc_error \<Rightarrow> snapshot \<Rightarrow> state \<Rightarrow> error + state" where
  "on_readable_cb fdn err snap s =
     (case node_at s fdn of
        None \<Rightarrow> Inl Invalid_pointer
      | Some n \<Rightarrow>
          (case fd_node_unref fdn
                  (emit [Mu_lock (Node_mu fdn), Store_readable_registered fdn False,
                         Mu_unlock (Node_mu fdn),
                         if err = GRPC_ERROR_NONE then Ares_process_fd (grpc_fd n) ARES_SOCKET_BAD
                         else Ares_cancel]
                     (put_node fdn (n\<lparr>readable_registered := False\<rparr>) s)) of
             Inl e \<Rightarrow> Inl e
           | Inr s1 \<Rightarrow>
               (case grpc_ares_notify_on_event_locked snap (emit [Mu_lock Driver_mu] s1) of
                  Inl e \<Rightarrow> Inl e
                | Inr s2 \<Rightarrow> Inr (emit [Mu_unlock Driver_mu] s2))))"

definition on_writable_cb :: "addr \<Rightarrow> grpc_error \<Rightarrow> snapshot \<Rightarrow> state \<Rightarrow> error + state" where
  "on_writable_cb fdn err snap s =
     (case node_at s fdn of
        None \<Rightarrow> Inl Invalid_pointer
      | Some n \<Rightarrow>
          (case fd_node_unref fdn
                  (emit [Mu_lock (Node_mu fdn), Store_writable_registered fdn False,
                         Mu_unlock (Node_mu fdn),
                         if err = GRPC_ERROR_NONE then Ares_process_fd ARES_SOCKET_BAD (grpc_fd n)
                         else Ares_cancel]
                     (put_node fdn (n\<lparr>writable_registered := False\<rparr>) s)) of
             Inl e \<Rightarrow> Inl e
           | Inr s1 \<Rightarrow>
               (case grpc_ares_notify_on_event_locked snap (emit [Mu_lock Driver_mu] s1) of
                  Inl e \<Rightarrow> Inl e
                | Inr s2 \<Rightarrow> Inr (emit [Mu_unlock Driver_mu] s2))))"

subsection \<open>Sequences of passes\<close>

text \<open>Reconciliation passes run one after the other, each on the next answer of
  the engine.\<close>

fun passes :: "snapshot list \<Rightarrow> state \<Rightarrow> error + state" where
  "passes [] s = Inr s"
| "passes (snap # snaps) s =
     (case grpc_ares_notify_on_event_locked snap s of
        Inl e \<Rightarrow> Inl e
      | Inr s1 \<Rightarrow> passes snaps s1)"

subsection \<open>What the properties are stated with\<close>

text \<open>The interest set of a snapshot: the descriptor and the two bits of every
  slot that has a bit set, in slot order.\<close>

definition reported_on :: "snapshot \<Rightarrow> nat list \<Rightarrow> (int \<times> bool \<times> bool) list" where
  "reported_on snap is =
     map (\<lambda>i. (socks snap i, ARES_GETSOCK_READABLE (socks_bitmask snap) i,
                ARES_GETSOCK_WRITABLE (socks_bitmask snap) i))
       (filter (\<lambda>i. ARES_GETSOCK_READABLE (socks_bitmask snap) i
                   \<or> ARES_GETSOCK_WRITABLE (socks_bitmask snap) i) is)"

definition reported :: "snapshot \<Rightarrow> (int \<times> bool \<times> bool) list" where
  "reported snap = reported_on snap [0..<ARES_GETSOCK_MAXNUM]"

text \<open>The nodes of the collection, in list order.\<close>

definition tracked :: "state \<Rightarrow> fd_node option list" where
  "tracked s = map (node_at s) (fds s)"

text \<open>The events a step appended to the trace.\<close>

definition events_since :: "state \<Rightarrow> state \<Rightarrow> event list" where
  "events_since s s' = drop (length (trace s)) (trace s')"

text \<open>The reference count of a node: one for its membership of the collection
  when \<open>linked\<close>, and one for each pending registration. A node in memory holds at
  least one reference.\<close>

definition node_ok :: "bool \<Rightarrow> fd_node \<Rightarrow> bool" where
  "node_ok linked n =
     (refs n = of_bool linked + of_bool (readable_registered n) + of_bool (writable_registered n)
      \<and> 0 < refs n)"

text \<open>The memory agrees with the list \<open>L\<close> of linked nodes: the nodes of \<open>L\<close> are in
  memory, every node in memory has the count of its kind, and no freed cell is in
  \<open>L\<close>. The invariant of the driver: no node is twice in the collection, and the
  memory agrees with the collection.\<close>

definition cells_ok :: "addr list \<Rightarrow> state \<Rightarrow> bool" where
  "cells_ok L s =
     (list_all (\<lambda>a. a < length (nodes s)) L
      \<and> list_all (\<lambda>a. case nodes s ! a of
                         None \<Rightarrow> a \<notin> set L
                       | Some n \<Rightarrow> node_ok (a \<in> set L) n) [0..<length (nodes s)])"

definition driver_inv :: "state \<Rightarrow> bool" where
  "driver_inv s = (distinct (fds s) \<and> cells_ok (fds s) s)"


text \<open>What one slot does to a node: each reported direction that is not yet
  registered takes a reference and sets its flag.\<close>

definition registered :: "bool \<Rightarrow> bool \<Rightarrow> fd_node \<Rightarrow> fd_node" where
  "registered r w n =
     n\<lparr>refs := refs n + of_bool (r \<and> \<not> readable_registered n) + of_bool (w \<and> \<not> writable_registered n),
       readable_registered := readable_registered n \<or> r,
       writable_registered := writable_registered n \<or> w\<rparr>"

text \<open>The events a pass started in state \<open>s\<close> may add to the trace: no lock or unlock
  of the driver, no call of the engine but \<^verbatim>\<open>ares_getsock\<close>, a registration only on a
  node created by the pass or whose flag is clear in \<open>s\<close>, an addition to the
  pollset set only for a node created by the pass, and shutdown and release only
  of nodes of the collection of \<open>s\<close>.\<close>

fun pass_event :: "state \<Rightarrow> event \<Rightarrow> bool" where
  "pass_event s (Mu_init m) = (m \<noteq> Driver_mu)"
| "pass_event s (Mu_lock m) = (m \<noteq> Driver_mu)"
| "pass_event s (Mu_unlock m) = (m \<noteq> Driver_mu)"
| "pass_event s (Mu_destroy m) = (m \<noteq> Driver_mu)"
| "pass_event s (Fd_notify_on_read a) =
     (case node_at s a of None \<Rightarrow> length (nodes s) \<le> a | Some n \<Rightarrow> \<not> readable_registered n)"
| "pass_event s (Fd_notify_on_write a) =
     (case node_at s a of None \<Rightarrow> length (nodes s) \<le> a | Some n \<Rightarrow> \<not> writable_registered n)"
| "pass_event s (Pollset_set_add_fd a) = (length (nodes s) \<le> a)"
| "pass_event s (Pollset_set_del_fd a) = (a \<in> set (fds s))"
| "pass_event s (Fd_shutdown a) = (a \<in> set (fds s))"
| "pass_event s (Fd_orphan a) = (a \<in> set (fds s))"
| "pass_event s (Gpr_free a) = (a \<in> set (fds s))"
| "pass_event s (Fd_create a fd) = (length (nodes s) \<le> a)"
| "pass_event s (Store_readable_registered a b) = True"
| "pass_event s (Store_writable_registered a b) = True"
| "pass_event s Ares_getsock = True"
| "pass_event s (Ares_process_fd r w) = False"
| "pass_event s Ares_cancel = False"
| "pass_event s Ares_destroy = False"
| "pass_event s Sched_cleanup = False"

text \<open>The calls made for a slot: those of the creation of a node, and those between
  taking and releasing the lock of the node.\<close>

definition create_events :: "addr \<Rightarrow> int \<Rightarrow> event list" where
  "create_events fdn fd =
     [Fd_create fdn fd, Store_readable_registered fdn False, Store_writable_registered fdn False,
      Mu_init (Node_mu fdn), Pollset_set_add_fd fdn]"

definition slot_events :: "bool \<Rightarrow> bool \<Rightarrow> addr \<Rightarrow> fd_node \<Rightarrow> event list" where
  "slot_events r w fdn n =
     [Mu_lock (Node_mu fdn)]
     @ (if r \<and> \<not> readable_registered n
        then [Fd_notify_on_read fdn, Store_readable_registered fdn True] else [])
     @ (if w \<and> \<not> writable_registered n
        then [Fd_notify_on_write fdn, Store_writable_registered fdn True] else [])
     @ [Mu_unlock (Node_mu fdn)]"

text \<open>A node as lines 266 to 271 initialise it.\<close>

definition fresh_node :: "int \<Rightarrow> fd_node" where
  "fresh_node fd = \<lparr>refs = 1, grpc_fd = fd, readable_registered = False, writable_registered = False\<rparr>"

text \<open>Node \<open>a\<close> of the collection after a pass from \<open>s\<close> to \<open>s'\<close> serves the reported
  triple \<open>t\<close>: it is a node of the old collection wrapping the descriptor, or a node
  created by the pass, and the slot has been applied to it.\<close>

definition serves :: "state \<Rightarrow> state \<Rightarrow> addr \<Rightarrow> int \<times> bool \<times> bool \<Rightarrow> bool" where
  "serves s s' a t =
     (case t of (fd, r, w) \<Rightarrow>
        if a \<in> set (fds s) then
          (case node_at s a of
             None \<Rightarrow> False
           | Some n \<Rightarrow> grpc_fd n = fd \<and> node_at s' a = Some (registered r w n))
        else length (nodes s) \<le> a \<and> node_at s' a = Some (registered r w (fresh_node fd)))"

text \<open>The invariant inside a pass, where the nodes are split between the old
  collection and the new list.\<close>

definition loop_inv :: "state \<Rightarrow> addr list \<Rightarrow> bool" where
  "loop_inv s new_list = (distinct (fds s @ new_list) \<and> cells_ok (fds s @ new_list) s)"

text \<open>What the \<^verbatim>\<open>for\<close> loop does to the state from one slot to a later one: nodes
  only leave the old collection, nodes outside it are untouched, no node is
  freed and no flag is cleared.\<close>

definition grows :: "state \<Rightarrow> state \<Rightarrow> bool" where
  "grows s s' =
     (working s' = working s \<and> length (nodes s) \<le> length (nodes s')
      \<and> set (fds s') \<subseteq> set (fds s)
      \<and> (\<forall>a\<in>set (fds s'). node_at s' a = node_at s a)
      \<and> (\<forall>a. a < length (nodes s) \<longrightarrow> a \<notin> set (fds s) \<longrightarrow> node_at s' a = node_at s a)
      \<and> (\<forall>a n. node_at s a = Some n \<longrightarrow>
             (\<exists>n'. node_at s' a = Some n'
                \<and> (readable_registered n \<longrightarrow> readable_registered n')
                \<and> (writable_registered n \<longrightarrow> writable_registered n'))))"

text \<open>The \<^verbatim>\<open>for\<close> loop over the slots \<open>is\<close>, from \<open>(s, nl)\<close> to \<open>(s', nl')\<close>.\<close>

definition loop_post :: "snapshot \<Rightarrow> nat list \<Rightarrow> state \<Rightarrow> addr list \<Rightarrow> state \<Rightarrow> addr list \<Rightarrow> bool" where
  "loop_post snap is s nl s' nl' =
     (grows s s'
      \<and> (\<exists>ms es. nl' = ms @ nl
            \<and> list_all2 (serves s s') ms (rev (reported_on snap is))
            \<and> set (fds s) \<subseteq> set (fds s') \<union> set ms
            \<and> trace s' = trace s @ es
            \<and> (\<forall>e\<in>set es. pass_event s e)
            \<and> (\<forall>a\<in>set ms. length (nodes s) \<le> a \<longrightarrow> Pollset_set_add_fd a \<in> set es)))"

text \<open>The calls of \<^verbatim>\<open>fd_node_unref\<close> when the count reaches zero, and the node after
  an \<^verbatim>\<open>fd_node_unref\<close>, if any.\<close>

definition release_events :: "addr \<Rightarrow> event list" where
  "release_events fdn =
     [Mu_destroy (Node_mu fdn), Pollset_set_del_fd fdn, Fd_shutdown fdn, Fd_orphan fdn, Gpr_free fdn]"

definition unreffed :: "fd_node \<Rightarrow> fd_node option" where
  "unreffed n = (if refs n = 1 then None else Some (n\<lparr>refs := refs n - 1\<rparr>))"

text \<open>The reconciliation as the specification describes it, on addresses alone: \<open>w\<close> gives the
  descriptor a node wraps, \<open>old\<close> is what is left of the old collection, \<open>nxt\<close> the
  address of the next node to be created and \<open>nl\<close> the new collection. Each
  reported triple, in slot order, moves the first node of \<open>old\<close> wrapping its
  descriptor to the new collection, or puts a new node there when \<open>old\<close> has
  none.\<close>

fun assign_slots ::
  "(addr \<Rightarrow> int option) \<Rightarrow> (int \<times> bool \<times> bool) list \<Rightarrow> addr list \<times> nat \<times> addr list
     \<Rightarrow> addr list \<times> nat \<times> addr list" where
  "assign_slots w [] acc = acc"
| "assign_slots w (t # ts) (old, nxt, nl) =
     (case find (\<lambda>a. w a = Some (fst t)) old of
        Some a \<Rightarrow> assign_slots w ts (remove1 a old, nxt, a # nl)
      | None \<Rightarrow> assign_slots w ts (old, Suc nxt, nxt # nl))"

text \<open>A whole pass from \<open>s\<close> to \<open>s'\<close>.\<close>

definition pass_post :: "snapshot \<Rightarrow> state \<Rightarrow> state \<Rightarrow> bool" where
  "pass_post snap s s' =
     (driver_inv s' \<and> working s' = (working s \<and> fds s' \<noteq> [])
      \<and> list_all2 (serves s s') (fds s') (rev (reported snap))
      \<and> length (nodes s) \<le> length (nodes s')
      \<and> (\<forall>a. a < length (nodes s) \<longrightarrow> a \<notin> set (fds s) \<longrightarrow> node_at s' a = node_at s a)
      \<and> (\<forall>a\<in>set (fds s). a \<notin> set (fds s') \<longrightarrow>
            node_at s' a = (case node_at s a of None \<Rightarrow> None | Some n \<Rightarrow> unreffed n))
      \<and> (\<exists>es. trace s' = trace s @ es \<and> (\<forall>e\<in>set es. pass_event s e)
            \<and> (\<forall>a\<in>set (fds s'). length (nodes s) \<le> a \<longrightarrow> Pollset_set_add_fd a \<in> set es)
            \<and> (\<forall>a\<in>set (fds s). a \<notin> set (fds s') \<longrightarrow>
                  Fd_shutdown a \<in> set es
                  \<and> (node_at s' a = None \<longrightarrow> set (release_events a) \<subseteq> set es))))"

text \<open>The calls of a completion handler before its \<^verbatim>\<open>fd_node_unref\<close>.\<close>

definition read_fired :: "addr \<Rightarrow> fd_node \<Rightarrow> grpc_error \<Rightarrow> event list" where
  "read_fired fdn n err =
     [Mu_lock (Node_mu fdn), Store_readable_registered fdn False, Mu_unlock (Node_mu fdn),
      if err = GRPC_ERROR_NONE then Ares_process_fd (grpc_fd n) ARES_SOCKET_BAD else Ares_cancel]"

definition write_fired :: "addr \<Rightarrow> fd_node \<Rightarrow> grpc_error \<Rightarrow> event list" where
  "write_fired fdn n err =
     [Mu_lock (Node_mu fdn), Store_writable_registered fdn False, Mu_unlock (Node_mu fdn),
      if err = GRPC_ERROR_NONE then Ares_process_fd ARES_SOCKET_BAD (grpc_fd n) else Ares_cancel]"

subsection \<open>Example states\<close>

text \<open>The driver that \<^verbatim>\<open>grpc_ares_ev_driver_create\<close> returns, and answers of the
  engine.\<close>

definition new_driver :: state where
  "new_driver = \<lparr>nodes = [], fds = [], working = False, trace = [Mu_init Driver_mu]\<rparr>"

definition snap_none :: snapshot where
  "snap_none = \<lparr>socks = (\<lambda>i. 0), socks_bitmask = 0\<rparr>"

definition snap_5r :: snapshot where
  "snap_5r = \<lparr>socks = (\<lambda>i. 5), socks_bitmask = 1\<rparr>"

definition snap_5w :: snapshot where
  "snap_5w = \<lparr>socks = (\<lambda>i. 5), socks_bitmask = 0x10000\<rparr>"

definition snap_5rw :: snapshot where
  "snap_5rw = \<lparr>socks = (\<lambda>i. 5), socks_bitmask = 0x10001\<rparr>"

definition snap_5r_5r :: snapshot where
  "snap_5r_5r = \<lparr>socks = (\<lambda>i. 5), socks_bitmask = 3\<rparr>"

definition snap_5r_7r :: snapshot where
  "snap_5r_7r = \<lparr>socks = (\<lambda>i. if i = 0 then 5 else 7), socks_bitmask = 3\<rparr>"

text \<open>Descriptor 5 registered for reading and writing (\<open>one_tracked\<close>); then the
  read fired and the engine reported nothing (\<open>one_unlinked\<close>), or the write did
  (\<open>read_pending_unlinked\<close>); from \<open>one_unlinked\<close> the write fired with an error, the
  engine reporting nothing (\<open>all_released\<close>) or descriptor 5 again (\<open>re_tracked\<close>);
  from \<open>one_tracked\<close> the write fired and the engine reported descriptor 5 writable
  (\<open>write_refired\<close>).
  Descriptors 5 and 7 registered for reading (\<open>two_tracked\<close>). One pass on
  descriptor 5 readable and writable (\<open>one_passed\<close>). Descriptor 5
  reported readable in two slots (\<open>dup_tracked\<close>); then the read of node 1 fired
  and the engine reported the same again (\<open>dup_refired\<close>).\<close>

definition one_tracked :: state where
  "one_tracked = projr (grpc_ares_ev_driver_start snap_5rw new_driver)"

definition one_unlinked :: state where
  "one_unlinked = projr (on_readable_cb 0 GRPC_ERROR_NONE snap_none one_tracked)"

definition two_tracked :: state where
  "two_tracked = projr (grpc_ares_ev_driver_start snap_5r_7r new_driver)"

definition read_pending_unlinked :: state where
  "read_pending_unlinked = projr (on_writable_cb 0 GRPC_ERROR_NONE snap_none one_tracked)"


definition write_refired :: state where
  "write_refired = projr (on_writable_cb 0 GRPC_ERROR_NONE snap_5w one_tracked)"

definition one_passed :: state where
  "one_passed = projr (passes [snap_5rw] new_driver)"

definition dup_tracked :: state where
  "dup_tracked = projr (grpc_ares_ev_driver_start snap_5r_5r new_driver)"

definition dup_refired :: state where
  "dup_refired = projr (on_readable_cb 1 GRPC_ERROR_NONE snap_5r_5r dup_tracked)"

definition re_tracked :: state where
  "re_tracked = projr (on_writable_cb 0 (GRPC_ERROR_CREATE ''shutdown'') snap_5r one_unlinked)"

section \<open>Memory and single steps\<close>

lemma node_at_less: "node_at s a = Some n \<Longrightarrow> a < length (nodes s)"
  by (simp add: node_at_def split: if_splits)

lemma node_at_fresh: "length (nodes s) \<le> a \<Longrightarrow> node_at s a = None"
  by (simp add: node_at_def)

lemma node_at_put: "a < length (nodes s) \<Longrightarrow> node_at (put_node a n s) = (node_at s)(a \<mapsto> n)"
  by (rule ext) (simp add: node_at_def put_node_def)

lemma node_at_free: "node_at (free_node a s) = (node_at s)(a := None)"
  by (rule ext) (simp add: node_at_def free_node_def)

lemma node_at_emit: "node_at (emit es s) = node_at s"
  by (rule ext) (simp add: node_at_def emit_def)

lemma node_at_fds_update: "node_at (s\<lparr>fds := xs\<rparr>) = node_at s"
  by (rule ext) (simp add: node_at_def)

lemma node_at_working_update: "node_at (s\<lparr>working := b\<rparr>) = node_at s"
  by (rule ext) (simp add: node_at_def)

lemma node_at_alloc: "node_at (s\<lparr>nodes := nodes s @ [Some n]\<rparr>) = (node_at s)(length (nodes s) \<mapsto> n)"
  by (rule ext) (auto simp add: node_at_def nth_append)

lemma put_node_fields:
  "fds (put_node a n s) = fds s" "working (put_node a n s) = working s"
  "trace (put_node a n s) = trace s" "length (nodes (put_node a n s)) = length (nodes s)"
  by (simp_all add: put_node_def)

lemma free_node_fields:
  "fds (free_node a s) = fds s" "working (free_node a s) = working s"
  "trace (free_node a s) = trace s" "length (nodes (free_node a s)) = length (nodes s)"
  by (simp_all add: free_node_def)

lemma emit_fields:
  "fds (emit es s) = fds s" "working (emit es s) = working s"
  "trace (emit es s) = trace s @ es" "nodes (emit es s) = nodes s"
  by (simp_all add: emit_def)

lemmas heap_simps = node_at_put node_at_free node_at_emit node_at_fds_update
  node_at_working_update node_at_alloc put_node_fields free_node_fields emit_fields

lemma cells_ok_iff:
  "cells_ok L s \<longleftrightarrow>
     (\<forall>a. case node_at s a of None \<Rightarrow> a \<notin> set L | Some n \<Rightarrow> node_ok (a \<in> set L) n)"
proof
  assume c: "cells_ok L s"
  show "\<forall>a. case node_at s a of None \<Rightarrow> a \<notin> set L | Some n \<Rightarrow> node_ok (a \<in> set L) n"
  proof
    fix a
    show "case node_at s a of None \<Rightarrow> a \<notin> set L | Some n \<Rightarrow> node_ok (a \<in> set L) n"
    proof (cases "a < length (nodes s)")
      case True
      with c show ?thesis by (simp add: cells_ok_def node_at_def list_all_iff)
    next
      case False
      with c have "a \<notin> set L" by (auto simp: cells_ok_def list_all_iff)
      with False show ?thesis by (simp add: node_at_def)
    qed
  qed
next
  assume r: "\<forall>a. case node_at s a of None \<Rightarrow> a \<notin> set L | Some n \<Rightarrow> node_ok (a \<in> set L) n"
  have "a < length (nodes s)" if "a \<in> set L" for a
  proof (rule ccontr)
    assume "\<not> a < length (nodes s)"
    then have "node_at s a = None" by (simp add: node_at_def)
    with r[rule_format, of a] that show False by simp
  qed
  moreover have "case nodes s ! a of None \<Rightarrow> a \<notin> set L | Some n \<Rightarrow> node_ok (a \<in> set L) n"
    if "a < length (nodes s)" for a
    using r[rule_format, of a] that by (simp add: node_at_def)
  ultimately show "cells_ok L s" by (simp add: cells_ok_def list_all_iff)
qed

lemma cells_ok_linked:
  "cells_ok L s \<Longrightarrow> a \<in> set L \<Longrightarrow> \<exists>n. node_at s a = Some n \<and> node_ok True n"
  by (auto simp: cells_ok_iff split: option.splits dest: spec[of _ a])

lemma cells_ok_unlinked:
  "cells_ok L s \<Longrightarrow> node_at s a = Some n \<Longrightarrow> a \<notin> set L \<Longrightarrow> node_ok False n"
  by (auto simp: cells_ok_iff split: option.splits dest: spec[of _ a])

lemma cells_ok_cong: "set L = set L' \<Longrightarrow> cells_ok L s = cells_ok L' s"
  by (auto simp: cells_ok_iff split: option.splits)

subsection \<open>Searching the list\<close>

lemma pop_fd_node_total:
  "\<forall>a\<in>set xs. node_at s a \<noteq> None \<Longrightarrow>
   \<exists>r rest. pop_fd_node s xs fd = Inr (r, rest) \<and>
     (case r of
        None \<Rightarrow> rest = xs \<and> (\<forall>a\<in>set xs. \<forall>n. node_at s a = Some n \<longrightarrow> grpc_fd n \<noteq> fd)
      | Some a \<Rightarrow> (\<exists>pre post. xs = pre @ a # post \<and> rest = pre @ post
            \<and> (\<forall>b\<in>set pre. \<forall>m. node_at s b = Some m \<longrightarrow> grpc_fd m \<noteq> fd)
            \<and> (\<exists>n. node_at s a = Some n \<and> grpc_fd n = fd)))"
proof (induction xs)
  case Nil
  then show ?case by simp
next
  case (Cons x xs)
  then obtain n where n: "node_at s x = Some n" by auto
  show ?case
  proof (cases "grpc_fd n = fd")
    case True
    with n show ?thesis
      apply simp
      apply (rule exI[of _ "[]"])
      apply simp
      done
  next
    case False
    from Cons obtain r rest where p: "pop_fd_node s xs fd = Inr (r, rest)"
      and c: "(case r of
        None \<Rightarrow> rest = xs \<and> (\<forall>a\<in>set xs. \<forall>n. node_at s a = Some n \<longrightarrow> grpc_fd n \<noteq> fd)
      | Some a \<Rightarrow> (\<exists>pre post. xs = pre @ a # post \<and> rest = pre @ post
            \<and> (\<forall>b\<in>set pre. \<forall>m. node_at s b = Some m \<longrightarrow> grpc_fd m \<noteq> fd)
            \<and> (\<exists>n. node_at s a = Some n \<and> grpc_fd n = fd)))"
      by auto
    show ?thesis
    proof (cases r)
      case None
      with n False p c show ?thesis by simp
    next
      case (Some a)
      with c obtain pre post where *: "xs = pre @ a # post" "rest = pre @ post"
         "\<forall>b\<in>set pre. \<forall>m. node_at s b = Some m \<longrightarrow> grpc_fd m \<noteq> fd"
         "\<exists>n. node_at s a = Some n \<and> grpc_fd n = fd" by auto
      with n False p Some show ?thesis
        apply simp
        apply (rule exI[of _ "x # pre"])
        apply simp
        done
    qed
  qed
qed

subsection \<open>Registration\<close>

lemma put_node_twice: "put_node a n (put_node a m s) = put_node a n s"
  by (simp add: put_node_def)

lemma register_read_eq:
  assumes "node_at s fdn = Some n"
  shows "register_read r fdn s =
     Inr (if r \<and> \<not> readable_registered n
          then emit [Fd_notify_on_read fdn, Store_readable_registered fdn True]
                 (put_node fdn (n\<lparr>refs := refs n + 1, readable_registered := True\<rparr>) s)
          else s)"
  using assms node_at_less[OF assms]
  by (simp add: register_read_def fd_node_ref_def node_at_put put_node_twice)

lemma register_write_eq:
  assumes "node_at s fdn = Some n"
  shows "register_write w fdn s =
     Inr (if w \<and> \<not> writable_registered n
          then emit [Fd_notify_on_write fdn, Store_writable_registered fdn True]
                 (put_node fdn (n\<lparr>refs := refs n + 1, writable_registered := True\<rparr>) s)
          else s)"
  using assms node_at_less[OF assms]
  by (simp add: register_write_def fd_node_ref_def node_at_put put_node_twice)

lemma register_pair:
  assumes "node_at s fdn = Some n"
  shows "\<exists>s2 s3. register_read r fdn s = Inr s2 \<and> register_write w fdn s2 = Inr s3
     \<and> node_at s3 = (node_at s)(fdn \<mapsto> registered r w n)
     \<and> fds s3 = fds s \<and> working s3 = working s \<and> length (nodes s3) = length (nodes s)
     \<and> trace s3 = trace s
         @ (if r \<and> \<not> readable_registered n
            then [Fd_notify_on_read fdn, Store_readable_registered fdn True] else [])
         @ (if w \<and> \<not> writable_registered n
            then [Fd_notify_on_write fdn, Store_writable_registered fdn True] else [])"
proof -
  from assms have l: "fdn < length (nodes s)" by (rule node_at_less)
  define n1 where "n1 = (if r \<and> \<not> readable_registered n then n\<lparr>refs := refs n + 1, readable_registered := True\<rparr> else n)"
  define s2 where "s2 = (if r \<and> \<not> readable_registered n then emit [Fd_notify_on_read fdn, Store_readable_registered fdn True] (put_node fdn n1 s) else s)"
  have r: "register_read r fdn s = Inr s2"
    using assms by (simp add: register_read_eq s2_def n1_def)
  have a2: "node_at s2 = (node_at s)(fdn \<mapsto> n1)" and f2: "fds s2 = fds s" "working s2 = working s"
     "length (nodes s2) = length (nodes s)"
    "trace s2 = trace s @ (if r \<and> \<not> readable_registered n then [Fd_notify_on_read fdn, Store_readable_registered fdn True] else [])"
    using assms l by (auto simp: s2_def n1_def heap_simps)
  define n2 where "n2 = (if w \<and> \<not> writable_registered n1 then n1\<lparr>refs := refs n1 + 1, writable_registered := True\<rparr> else n1)"
  define s3 where "s3 = (if w \<and> \<not> writable_registered n1 then emit [Fd_notify_on_write fdn, Store_writable_registered fdn True] (put_node fdn n2 s2) else s2)"
  have l2: "fdn < length (nodes s2)" using l f2 by simp
  have w: "register_write w fdn s2 = Inr s3"
    using a2 by (simp add: register_write_eq[of s2 fdn n1] s3_def n2_def)
  have a3: "node_at s3 = (node_at s)(fdn \<mapsto> n2)" and f3: "fds s3 = fds s" "working s3 = working s"
     "length (nodes s3) = length (nodes s)"
    "trace s3 = trace s2 @ (if w \<and> \<not> writable_registered n1 then [Fd_notify_on_write fdn, Store_writable_registered fdn True] else [])"
    using a2 l2 f2 by (auto simp: s3_def n2_def heap_simps)
  have n2: "n2 = registered r w n"
    by (cases n) (auto simp add: n2_def n1_def registered_def)
  have wn1: "writable_registered n1 = writable_registered n" by (simp add: n1_def)
  show ?thesis
    apply (rule exI[of _ s2], rule exI[of _ s3])
    using r w a3 f3 f2 n2 wn1 by simp
qed

subsection \<open>One slot\<close>

lemma slot_body_inactive:
  "\<not> ARES_GETSOCK_READABLE (socks_bitmask snap) i \<Longrightarrow> \<not> ARES_GETSOCK_WRITABLE (socks_bitmask snap) i
   \<Longrightarrow> slot_body snap i (s, nl) = Inr (s, nl)"
  by (simp add: slot_body_def)

lemma slot_body_effect:
  assumes live: "\<forall>a\<in>set (fds s). node_at s a \<noteq> None"
    and act: "ARES_GETSOCK_READABLE (socks_bitmask snap) i \<or> ARES_GETSOCK_WRITABLE (socks_bitmask snap) i"
  shows "\<exists>fdn n0 s' es. slot_body snap i (s, nl) = Inr (s', fdn # nl)
     \<and> node_at s' = (node_at s)(fdn \<mapsto> registered (ARES_GETSOCK_READABLE (socks_bitmask snap) i)
                                        (ARES_GETSOCK_WRITABLE (socks_bitmask snap) i) n0)
     \<and> grpc_fd n0 = socks snap i \<and> working s' = working s \<and> trace s' = trace s @ es
     \<and> ((\<exists>pre post. fds s = pre @ fdn # post \<and> fds s' = pre @ post \<and> node_at s fdn = Some n0
            \<and> (\<forall>b\<in>set pre. \<forall>m. node_at s b = Some m \<longrightarrow> grpc_fd m \<noteq> socks snap i)
            \<and> length (nodes s') = length (nodes s)
            \<and> es = slot_events (ARES_GETSOCK_READABLE (socks_bitmask snap) i)
                     (ARES_GETSOCK_WRITABLE (socks_bitmask snap) i) fdn n0)
         \<or> (fdn = length (nodes s) \<and> n0 = fresh_node (socks snap i)
            \<and> fds s' = fds s \<and> length (nodes s') = Suc (length (nodes s))
            \<and> (\<forall>a\<in>set (fds s). \<forall>n. node_at s a = Some n \<longrightarrow> grpc_fd n \<noteq> socks snap i)
            \<and> es = create_events fdn (socks snap i)
                   @ slot_events (ARES_GETSOCK_READABLE (socks_bitmask snap) i)
                       (ARES_GETSOCK_WRITABLE (socks_bitmask snap) i) fdn n0))"
proof -
  let ?R = "ARES_GETSOCK_READABLE (socks_bitmask snap) i"
  let ?W = "ARES_GETSOCK_WRITABLE (socks_bitmask snap) i"
  let ?fd = "socks snap i"
  from pop_fd_node_total[OF live, of ?fd]
  obtain r rest where p: "pop_fd_node s (fds s) ?fd = Inr (r, rest)"
    and c: "(case r of
        None \<Rightarrow> rest = fds s \<and> (\<forall>a\<in>set (fds s). \<forall>n. node_at s a = Some n \<longrightarrow> grpc_fd n \<noteq> ?fd)
      | Some a \<Rightarrow> (\<exists>pre post. fds s = pre @ a # post \<and> rest = pre @ post
            \<and> (\<forall>b\<in>set pre. \<forall>m. node_at s b = Some m \<longrightarrow> grpc_fd m \<noteq> ?fd)
            \<and> (\<exists>n. node_at s a = Some n \<and> grpc_fd n = ?fd)))"
    by blast
  show ?thesis
  proof (cases r)
    case None
    let ?fdn = "length (nodes s)"
    let ?n0 = "fresh_node ?fd"
    define s0 where "s0 = snd (new_fd_node ?fd (s\<lparr>fds := rest\<rparr>))"
    define s1 where "s1 = emit [Mu_lock (Node_mu ?fdn)] s0"
    have nf: "new_fd_node ?fd (s\<lparr>fds := rest\<rparr>) = (?fdn, s0)"
      by (simp add: new_fd_node_def Let_def s0_def)
    have s1: "node_at s1 = (node_at s)(?fdn \<mapsto> ?n0)" "fds s1 = rest" "working s1 = working s"
      "length (nodes s1) = Suc ?fdn"
      "trace s1 = trace s @ create_events ?fdn ?fd @ [Mu_lock (Node_mu ?fdn)]"
      by (simp_all add: s1_def s0_def new_fd_node_def Let_def heap_simps fresh_node_def create_events_def
           node_at_alloc[of "s\<lparr>fds := rest\<rparr>", simplified])
    then have "node_at s1 ?fdn = Some ?n0" by simp
    from register_pair[OF this, of ?R ?W]
    obtain s2 s3 where rp: "register_read ?R ?fdn s1 = Inr s2" "register_write ?W ?fdn s2 = Inr s3"
      "node_at s3 = (node_at s1)(?fdn \<mapsto> registered ?R ?W ?n0)"
      "fds s3 = fds s1" "working s3 = working s1" "length (nodes s3) = length (nodes s1)"
      "trace s3 = trace s1
         @ (if ?R \<and> \<not> readable_registered ?n0
            then [Fd_notify_on_read ?fdn, Store_readable_registered ?fdn True] else [])
         @ (if ?W \<and> \<not> writable_registered ?n0
            then [Fd_notify_on_write ?fdn, Store_writable_registered ?fdn True] else [])"
      by blast
    have res: "slot_body snap i (s, nl) = Inr (emit [Mu_unlock (Node_mu ?fdn)] s3, ?fdn # nl)"
      using act p None nf rp(1,2) unfolding slot_body_def s1_def
      by simp
    show ?thesis
      apply (rule exI[of _ ?fdn], rule exI[of _ ?n0])
      apply (rule exI[of _ "emit [Mu_unlock (Node_mu ?fdn)] s3"])
      apply (rule exI[of _ "create_events ?fdn ?fd @ slot_events ?R ?W ?fdn ?n0"])
      using res rp(3-) s1 c None
      by (simp add: heap_simps slot_events_def fresh_node_def)
  next
    case (Some a)
    with c obtain pre post n where *: "fds s = pre @ a # post" "rest = pre @ post"
      "\<forall>b\<in>set pre. \<forall>m. node_at s b = Some m \<longrightarrow> grpc_fd m \<noteq> ?fd"
      "node_at s a = Some n" "grpc_fd n = ?fd"
      by auto
    define s1 where "s1 = emit [Mu_lock (Node_mu a)] (s\<lparr>fds := rest\<rparr>)"
    have s1: "node_at s1 = node_at s" "fds s1 = rest" "working s1 = working s"
      "length (nodes s1) = length (nodes s)"
      "trace s1 = trace s @ [Mu_lock (Node_mu a)]"
      by (simp_all add: s1_def heap_simps)
    with * have "node_at s1 a = Some n" by simp
    from register_pair[OF this, of ?R ?W]
    obtain s2 s3 where rp: "register_read ?R a s1 = Inr s2" "register_write ?W a s2 = Inr s3"
      "node_at s3 = (node_at s1)(a \<mapsto> registered ?R ?W n)"
      "fds s3 = fds s1" "working s3 = working s1" "length (nodes s3) = length (nodes s1)"
      "trace s3 = trace s1
         @ (if ?R \<and> \<not> readable_registered n
            then [Fd_notify_on_read a, Store_readable_registered a True] else [])
         @ (if ?W \<and> \<not> writable_registered n
            then [Fd_notify_on_write a, Store_writable_registered a True] else [])"
      by blast
    have res: "slot_body snap i (s, nl) = Inr (emit [Mu_unlock (Node_mu a)] s3, a # nl)"
      using act p Some rp(1,2) unfolding slot_body_def s1_def
      by simp
    show ?thesis
      apply (rule exI[of _ a], rule exI[of _ n])
      apply (rule exI[of _ "emit [Mu_unlock (Node_mu a)] s3"])
      apply (rule exI[of _ "slot_events ?R ?W a n"])
      using res rp(3-) s1 *
      by (simp add: heap_simps slot_events_def) blast
  qed
qed

subsection \<open>From slot to slot\<close>

lemma loop_inv_live: "loop_inv s nl \<Longrightarrow> a \<in> set (fds s) \<or> a \<in> set nl \<Longrightarrow> \<exists>n. node_at s a = Some n \<and> node_ok True n"
  unfolding loop_inv_def using cells_ok_linked[of "fds s @ nl" s a] by auto

lemma loop_inv_less: "loop_inv s nl \<Longrightarrow> a \<in> set (fds s) \<or> a \<in> set nl \<Longrightarrow> a < length (nodes s)"
  using loop_inv_live[of s nl a] node_at_less by blast

lemma grows_refl: "grows s s"
  by (simp add: grows_def)

lemma grows_trans: "grows s s1 \<Longrightarrow> grows s1 s2 \<Longrightarrow> grows s s2"
  unfolding grows_def
  apply (intro conjI)
       apply simp
      apply simp
     apply blast
    apply (metis subsetD)
   apply (metis order_less_le_trans subsetD)
  apply (metis)
  done

lemma pass_event_grows:
  assumes g: "grows s s1" and l: "\<forall>a\<in>set (fds s). a < length (nodes s)"
    and fr: "\<forall>a. a < length (nodes s) \<longrightarrow> node_at s a = None \<longrightarrow> a \<notin> set (fds s)"
    and p: "pass_event s1 e"
  shows "pass_event s e"
proof (cases e)
  case (Fd_notify_on_read a)
  show ?thesis
  proof (cases "node_at s a")
    case None
    show ?thesis
    proof (cases "a < length (nodes s)")
      case True
      with None fr g have "node_at s1 a = None" by (simp add: grows_def)
      with p Fd_notify_on_read True g show ?thesis by (simp add: grows_def)
    next
      case False
      with None Fd_notify_on_read show ?thesis by simp
    qed
  next
    case (Some n)
    with g obtain n' where "node_at s1 a = Some n'" "readable_registered n \<longrightarrow> readable_registered n'"
      unfolding grows_def by blast
    with p Fd_notify_on_read Some show ?thesis by auto
  qed
next
  case (Fd_notify_on_write a)
  show ?thesis
  proof (cases "node_at s a")
    case None
    show ?thesis
    proof (cases "a < length (nodes s)")
      case True
      with None fr g have "node_at s1 a = None" by (simp add: grows_def)
      with p Fd_notify_on_write True g show ?thesis by (simp add: grows_def)
    next
      case False
      with None Fd_notify_on_write show ?thesis by simp
    qed
  next
    case (Some n)
    with g obtain n' where "node_at s1 a = Some n'" "writable_registered n \<longrightarrow> writable_registered n'"
      unfolding grows_def by blast
    with p Fd_notify_on_write Some show ?thesis by auto
  qed
qed (use g p in \<open>auto simp: grows_def\<close>)

lemma node_ok_registered: "node_ok l n \<Longrightarrow> node_ok l (registered r w n)"
  by (auto simp: node_ok_def registered_def)

lemma registered_simps:
  "grpc_fd (registered r w n) = grpc_fd n"
  "readable_registered (registered r w n) = (readable_registered n \<or> r)"
  "writable_registered (registered r w n) = (writable_registered n \<or> w)"
  by (simp_all add: registered_def)

lemma node_ok_fresh: "node_ok True (fresh_node fd)"
  by (simp add: node_ok_def fresh_node_def)

lemma reported_on_Nil: "reported_on snap [] = []"
  by (simp add: reported_on_def)

lemma reported_on_single:
  "reported_on snap [i] =
     (if ARES_GETSOCK_READABLE (socks_bitmask snap) i \<or> ARES_GETSOCK_WRITABLE (socks_bitmask snap) i
      then [(socks snap i, ARES_GETSOCK_READABLE (socks_bitmask snap) i,
             ARES_GETSOCK_WRITABLE (socks_bitmask snap) i)] else [])"
  by (simp add: reported_on_def)

lemma reported_on_append: "reported_on snap (xs @ ys) = reported_on snap xs @ reported_on snap ys"
  by (simp add: reported_on_def)

lemma loop_post_refl: "loop_post snap [] s nl s nl"
  by (simp add: loop_post_def grows_refl reported_on_Nil)

lemma slot_events_pass:
  assumes "node_at s fdn = Some n"
  shows "\<forall>e\<in>set (slot_events r w fdn n). pass_event s e"
  using assms by (auto simp: slot_events_def)

lemma slot_events_pass_new:
  assumes "length (nodes s) \<le> fdn"
  shows "\<forall>e\<in>set (create_events fdn fd @ slot_events r w fdn n). pass_event s e"
  using assms by (auto simp: slot_events_def create_events_def node_at_fresh)

lemma slot_body_step:
  assumes li: "loop_inv s nl"
  shows "\<exists>s' nl'. slot_body snap i (s, nl) = Inr (s', nl') \<and> loop_inv s' nl'
           \<and> loop_post snap [i] s nl s' nl'"
proof (cases "ARES_GETSOCK_READABLE (socks_bitmask snap) i \<or> ARES_GETSOCK_WRITABLE (socks_bitmask snap) i")
  case False
  then show ?thesis using li
    by (simp add: slot_body_inactive loop_post_def grows_refl reported_on_single)
next
  case True
  let ?R = "ARES_GETSOCK_READABLE (socks_bitmask snap) i"
  let ?W = "ARES_GETSOCK_WRITABLE (socks_bitmask snap) i"
  let ?fd = "socks snap i"
  have live: "\<forall>a\<in>set (fds s). node_at s a \<noteq> None"
    using loop_inv_live[OF li] by fastforce
  have less: "\<forall>a\<in>set (fds s @ nl). a < length (nodes s)"
    using loop_inv_less[OF li] by auto
  from li have dist: "distinct (fds s @ nl)" and ck: "cells_ok (fds s @ nl) s"
    by (simp_all add: loop_inv_def)
  from slot_body_effect[OF live True, of nl]
  obtain fdn n0 s' es where res: "slot_body snap i (s, nl) = Inr (s', fdn # nl)"
    and na: "node_at s' = (node_at s)(fdn \<mapsto> registered ?R ?W n0)"
    and fd: "grpc_fd n0 = ?fd" and wk: "working s' = working s" and tr: "trace s' = trace s @ es"
    and alt: "(\<exists>pre post. fds s = pre @ fdn # post \<and> fds s' = pre @ post \<and> node_at s fdn = Some n0
            \<and> (\<forall>b\<in>set pre. \<forall>m. node_at s b = Some m \<longrightarrow> grpc_fd m \<noteq> ?fd)
            \<and> length (nodes s') = length (nodes s)
            \<and> es = slot_events ?R ?W fdn n0)
         \<or> (fdn = length (nodes s) \<and> n0 = fresh_node ?fd
            \<and> fds s' = fds s \<and> length (nodes s') = Suc (length (nodes s))
            \<and> (\<forall>a\<in>set (fds s). \<forall>n. node_at s a = Some n \<longrightarrow> grpc_fd n \<noteq> ?fd)
            \<and> es = create_events fdn ?fd @ slot_events ?R ?W fdn n0)"
    by blast
  from alt show ?thesis
  proof
    assume "\<exists>pre post. fds s = pre @ fdn # post \<and> fds s' = pre @ post \<and> node_at s fdn = Some n0
            \<and> (\<forall>b\<in>set pre. \<forall>m. node_at s b = Some m \<longrightarrow> grpc_fd m \<noteq> ?fd)
            \<and> length (nodes s') = length (nodes s)
            \<and> es = slot_events ?R ?W fdn n0"
    then obtain pre post where f: "fds s = pre @ fdn # post" and f': "fds s' = pre @ post"
      and n0: "node_at s fdn = Some n0" and len: "length (nodes s') = length (nodes s)"
      and es: "es = slot_events ?R ?W fdn n0"
      by blast
    have d': "distinct (fds s' @ fdn # nl)" using dist f f' by auto
    have seteq: "set (fds s' @ fdn # nl) = set (fds s @ nl)" using f f' by auto
    have notin: "fdn \<notin> set (fds s')" using dist f f' by auto
    have ok0: "node_ok True n0"
      using cells_ok_linked[OF ck, of fdn] f n0 by auto
    have ck': "cells_ok (fds s' @ fdn # nl) s'"
      unfolding cells_ok_iff seteq
    proof
      fix a
      show "case node_at s' a of None \<Rightarrow> a \<notin> set (fds s @ nl)
            | Some n \<Rightarrow> node_ok (a \<in> set (fds s @ nl)) n"
      proof (cases "a = fdn")
        case True
        then show ?thesis using na f node_ok_registered[OF ok0] by simp
      next
        case False
        then show ?thesis using na ck[unfolded cells_ok_iff, rule_format, of a] by simp
      qed
    qed
    have g: "grows s s'"
      unfolding grows_def using wk len f f' na notin n0
      by (auto simp: registered_simps)
    have sv: "serves s s' fdn (?fd, ?R, ?W)"
      using f n0 fd na by (simp add: serves_def)
    have pe: "\<forall>e\<in>set es. pass_event s e"
      unfolding es using slot_events_pass[OF n0] by blast
    have lp: "loop_post snap [i] s nl s' (fdn # nl)"
      unfolding loop_post_def
      apply (intro conjI g)
      apply (rule exI[of _ "[fdn]"], rule exI[of _ es])
      using True sv tr pe f f' less by (auto simp: reported_on_single)
    from res d' ck' lp show ?thesis by (simp add: loop_inv_def)
  next
    assume "fdn = length (nodes s) \<and> n0 = fresh_node ?fd
            \<and> fds s' = fds s \<and> length (nodes s') = Suc (length (nodes s))
            \<and> (\<forall>a\<in>set (fds s). \<forall>n. node_at s a = Some n \<longrightarrow> grpc_fd n \<noteq> ?fd)
            \<and> es = create_events fdn ?fd @ slot_events ?R ?W fdn n0"
    then have fdn: "fdn = length (nodes s)" and n0: "n0 = fresh_node ?fd"
      and f': "fds s' = fds s" and len: "length (nodes s') = Suc (length (nodes s))"
      and es: "es = create_events fdn ?fd @ slot_events ?R ?W fdn n0"
      by blast+
    have notin: "fdn \<notin> set (fds s @ nl)" using less fdn by auto
    have d': "distinct (fds s' @ fdn # nl)" using dist f' notin by auto
    have ck': "cells_ok (fds s' @ fdn # nl) s'"
      unfolding cells_ok_iff
    proof
      fix a
      show "case node_at s' a of None \<Rightarrow> a \<notin> set (fds s' @ fdn # nl)
            | Some n \<Rightarrow> node_ok (a \<in> set (fds s' @ fdn # nl)) n"
      proof (cases "a = fdn")
        case True
        then show ?thesis using na n0 node_ok_registered[OF node_ok_fresh] by simp
      next
        case False
        then show ?thesis using na f' ck[unfolded cells_ok_iff, rule_format, of a]
          by (auto split: option.splits)
      qed
    qed
    have fr: "node_at s fdn = None" using fdn by (simp add: node_at_fresh)
    have g: "grows s s'"
      unfolding grows_def using wk len f' na notin fdn fr
      by auto
    have sv: "serves s s' fdn (?fd, ?R, ?W)"
      using notin fdn n0 na by (simp add: serves_def)
    have pe: "\<forall>e\<in>set es. pass_event s e"
      unfolding es using slot_events_pass_new[of s fdn] fdn by blast
    have pa: "Pollset_set_add_fd fdn \<in> set es"
      unfolding es by (simp add: create_events_def)
    have lp: "loop_post snap [i] s nl s' (fdn # nl)"
      unfolding loop_post_def
      apply (intro conjI g)
      apply (rule exI[of _ "[fdn]"], rule exI[of _ es])
      using True sv tr pe pa f' by (auto simp: reported_on_single)
    from res d' ck' lp show ?thesis by (simp add: loop_inv_def)
  qed
qed

subsection \<open>The loop over the slots\<close>

lemma serves_later:
  assumes g: "grows s s1" and l: "\<forall>a\<in>set (fds s). a < length (nodes s)"
    and sv: "serves s1 s2 a t"
  shows "serves s s2 a t"
proof (cases "a \<in> set (fds s1)")
  case True
  with g have "a \<in> set (fds s)" "node_at s1 a = node_at s a" by (auto simp: grows_def)
  with sv True show ?thesis by (simp add: serves_def)
next
  case False
  with sv have "length (nodes s1) \<le> a" by (auto simp: serves_def)
  with g have "length (nodes s) \<le> a" by (simp add: grows_def)
  with l have "a \<notin> set (fds s)" by auto
  with sv False \<open>length (nodes s) \<le> a\<close> show ?thesis by (auto simp: serves_def)
qed

lemma serves_earlier:
  "serves s s1 a t \<Longrightarrow> node_at s2 a = node_at s1 a \<Longrightarrow> serves s s2 a t"
  by (auto simp: serves_def split: prod.splits option.splits if_splits)

lemma serves_origin: "serves s s' a t \<Longrightarrow> a \<in> set (fds s) \<or> length (nodes s) \<le> a"
  by (auto simp: serves_def split: if_splits)

lemma loop_post_trans:
  assumes li: "loop_inv s nl" and li1: "loop_inv s1 nl1"
    and p1: "loop_post snap is1 s nl s1 nl1" and p2: "loop_post snap is2 s1 nl1 s2 nl2"
  shows "loop_post snap (is1 @ is2) s nl s2 nl2"
proof -
  from p1 obtain ms1 es1 where g1: "grows s s1" and nl1: "nl1 = ms1 @ nl"
    and sv1: "list_all2 (serves s s1) ms1 (rev (reported_on snap is1))"
    and sub1: "set (fds s) \<subseteq> set (fds s1) \<union> set ms1"
    and tr1: "trace s1 = trace s @ es1" and pe1: "\<forall>e\<in>set es1. pass_event s e"
    and pa1: "\<forall>a\<in>set ms1. length (nodes s) \<le> a \<longrightarrow> Pollset_set_add_fd a \<in> set es1"
    unfolding loop_post_def by blast
  from p2 obtain ms2 es2 where g2: "grows s1 s2" and nl2: "nl2 = ms2 @ nl1"
    and sv2: "list_all2 (serves s1 s2) ms2 (rev (reported_on snap is2))"
    and sub2: "set (fds s1) \<subseteq> set (fds s2) \<union> set ms2"
    and tr2: "trace s2 = trace s1 @ es2" and pe2: "\<forall>e\<in>set es2. pass_event s1 e"
    and pa2: "\<forall>a\<in>set ms2. length (nodes s1) \<le> a \<longrightarrow> Pollset_set_add_fd a \<in> set es2"
    unfolding loop_post_def by blast
  have less: "\<forall>a\<in>set (fds s). a < length (nodes s)"
    using loop_inv_less[OF li] by blast
  have fr: "\<forall>a. a < length (nodes s) \<longrightarrow> node_at s a = None \<longrightarrow> a \<notin> set (fds s)"
    using loop_inv_live[OF li] by fastforce
  have g: "grows s s2" using g1 g2 by (rule grows_trans)
  have keep: "node_at s2 a = node_at s1 a" if "a \<in> set ms1" for a
  proof -
    from that nl1 have "a \<in> set nl1" by simp
    with li1 have "a \<notin> set (fds s1)" "a < length (nodes s1)"
      using loop_inv_less[OF li1, of a] by (auto simp: loop_inv_def)
    with g2 show ?thesis by (simp add: grows_def)
  qed
  have sva: "list_all2 (serves s s2) ms1 (rev (reported_on snap is1))"
    using sv1 by (rule list.rel_mono_strong) (auto intro: serves_earlier keep)
  have svb: "list_all2 (serves s s2) ms2 (rev (reported_on snap is2))"
    using sv2 by (rule list_all2_mono) (rule serves_later[OF g1 less])
  have sv: "list_all2 (serves s s2) (ms2 @ ms1) (rev (reported_on snap (is1 @ is2)))"
    using sva svb by (simp add: reported_on_append list_all2_appendI)
  have sub: "set (fds s) \<subseteq> set (fds s2) \<union> set (ms2 @ ms1)"
    using sub1 sub2 by auto
  have pe: "\<forall>e\<in>set (es1 @ es2). pass_event s e"
    using pe1 pe2 pass_event_grows[OF g1 less fr] by auto
  have pa: "\<forall>a\<in>set (ms2 @ ms1). length (nodes s) \<le> a \<longrightarrow> Pollset_set_add_fd a \<in> set (es1 @ es2)"
  proof (intro ballI impI)
    fix a assume a: "a \<in> set (ms2 @ ms1)" and la: "length (nodes s) \<le> a"
    show "Pollset_set_add_fd a \<in> set (es1 @ es2)"
    proof (cases "a \<in> set ms1")
      case True
      with pa1 la show ?thesis by simp
    next
      case False
      with a have m2: "a \<in> set ms2" by simp
      with sv2 have "\<exists>t. serves s1 s2 a t"
        unfolding list_all2_conv_all_nth in_set_conv_nth by metis
      then obtain t where "serves s1 s2 a t" ..
      then have "a \<in> set (fds s1) \<or> length (nodes s1) \<le> a" by (rule serves_origin)
      moreover have "a \<notin> set (fds s1)"
      proof
        assume "a \<in> set (fds s1)"
        with g1 have "a \<in> set (fds s)" by (auto simp: grows_def)
        with less la show False by auto
      qed
      ultimately have "length (nodes s1) \<le> a" by simp
      with pa2 m2 show ?thesis by simp
    qed
  qed
  show ?thesis
    unfolding loop_post_def
    apply (intro conjI g)
    apply (rule exI[of _ "ms2 @ ms1"], rule exI[of _ "es1 @ es2"])
    using nl1 nl2 sv sub tr1 tr2 pe pa by simp
qed

lemma slots_loop_post:
  "loop_inv s nl \<Longrightarrow>
   \<exists>s' nl'. slots_loop snap is (s, nl) = Inr (s', nl') \<and> loop_inv s' nl'
      \<and> loop_post snap is s nl s' nl'"
proof (induction "is" arbitrary: s nl)
  case Nil
  then show ?case by (simp add: loop_post_refl)
next
  case (Cons i "is")
  from slot_body_step[OF Cons.prems, of snap i]
  obtain s1 nl1 where b: "slot_body snap i (s, nl) = Inr (s1, nl1)" and li1: "loop_inv s1 nl1"
    and p1: "loop_post snap [i] s nl s1 nl1" by blast
  from Cons.IH[OF li1]
  obtain s2 nl2 where l: "slots_loop snap is (s1, nl1) = Inr (s2, nl2)" and li2: "loop_inv s2 nl2"
    and p2: "loop_post snap is s1 nl1 s2 nl2" by blast
  from loop_post_trans[OF Cons.prems li1 p1 p2] b l li2 show ?case by simp
qed

subsection \<open>Releasing references, and the nodes left over\<close>

lemma fd_node_unref_eq:
  assumes "node_at s a = Some n" and "refs n = 1 \<Longrightarrow> \<not> readable_registered n \<and> \<not> writable_registered n"
  shows "fd_node_unref a s =
     Inr (if refs n = 1 then emit (release_events a) (free_node a s)
          else put_node a (n\<lparr>refs := refs n - 1\<rparr>) s)"
  using assms by (auto simp: fd_node_unref_def release_events_def)

lemma fd_node_unref_effect:
  assumes n: "node_at s a = Some n" and ok: "refs n = 1 \<Longrightarrow> \<not> readable_registered n \<and> \<not> writable_registered n"
  shows "\<exists>s'. fd_node_unref a s = Inr s' \<and> node_at s' = (node_at s)(a := unreffed n)
     \<and> fds s' = fds s \<and> working s' = working s \<and> length (nodes s') = length (nodes s)
     \<and> trace s' = trace s @ (if refs n = 1 then release_events a else [])"
  using fd_node_unref_eq[OF n ok] node_at_less[OF n] n
  by (auto simp: heap_simps unreffed_def)

lemma node_ok_unlink: "node_ok True n \<Longrightarrow> refs n \<noteq> 1 \<Longrightarrow> node_ok False (n\<lparr>refs := refs n - 1\<rparr>)"
  by (cases "readable_registered n"; cases "writable_registered n"; simp add: node_ok_def)

lemma node_ok_True_one: "node_ok True n \<Longrightarrow> refs n = 1 \<Longrightarrow> \<not> readable_registered n \<and> \<not> writable_registered n"
  by (cases "readable_registered n"; cases "writable_registered n"; simp add: node_ok_def)

lemma drop_remaining_post:
  assumes "loop_inv s nl" and "fds s = xs"
  shows "\<exists>s' es. drop_remaining xs s = Inr s' \<and> fds s' = [] \<and> loop_inv s' nl
     \<and> working s' = working s \<and> length (nodes s') = length (nodes s)
     \<and> (\<forall>a. a \<notin> set xs \<longrightarrow> node_at s' a = node_at s a)
     \<and> (\<forall>a\<in>set xs. node_at s' a = (case node_at s a of None \<Rightarrow> None | Some n \<Rightarrow> unreffed n))
     \<and> trace s' = trace s @ es
     \<and> set es \<subseteq> (\<Union>a\<in>set xs. insert (Fd_shutdown a) (set (release_events a)))
     \<and> (\<forall>a\<in>set xs. Fd_shutdown a \<in> set es)
     \<and> (\<forall>a\<in>set xs. node_at s' a = None \<longrightarrow> set (release_events a) \<subseteq> set es)"
  using assms
proof (induction xs arbitrary: s)
  case Nil
  then show ?case by simp
next
  case (Cons cur rest)
  note li = Cons.prems(1) and f = Cons.prems(2)
  from loop_inv_live[OF li, of cur] f obtain n where n: "node_at s cur = Some n" and ok: "node_ok True n"
    by auto
  define s0 where "s0 = emit [Fd_shutdown cur] (s\<lparr>fds := rest\<rparr>)"
  have s0: "node_at s0 = node_at s" "fds s0 = rest" "working s0 = working s"
    "length (nodes s0) = length (nodes s)" "trace s0 = trace s @ [Fd_shutdown cur]"
    by (simp_all add: s0_def heap_simps)
  from n s0 have n0: "node_at s0 cur = Some n" by simp
  from fd_node_unref_effect[OF n0 node_ok_True_one[OF ok]]
  obtain s1 where u: "fd_node_unref cur s0 = Inr s1" and na1: "node_at s1 = (node_at s)(cur := unreffed n)"
    and f1: "fds s1 = rest" and w1: "working s1 = working s" and l1: "length (nodes s1) = length (nodes s)"
    and t1: "trace s1 = trace s @ [Fd_shutdown cur] @ (if refs n = 1 then release_events cur else [])"
    using s0 by auto
  from li f have dist: "distinct (cur # rest @ nl)" and ck: "cells_ok (cur # rest @ nl) s"
    by (simp_all add: loop_inv_def)
  have ck1: "cells_ok (rest @ nl) s1"
    unfolding cells_ok_iff
  proof
    fix a
    show "case node_at s1 a of None \<Rightarrow> a \<notin> set (rest @ nl)
          | Some n \<Rightarrow> node_ok (a \<in> set (rest @ nl)) n"
    proof (cases "a = cur")
      case True
      then show ?thesis using na1 dist node_ok_unlink[OF ok] by (auto simp: unreffed_def)
    next
      case False
      then show ?thesis using na1 ck[unfolded cells_ok_iff, rule_format, of a]
        by (auto split: option.splits)
    qed
  qed
  have li1: "loop_inv s1 nl" using dist ck1 f1 by (simp add: loop_inv_def)
  from Cons.IH[OF li1 f1]
  obtain s' es where d: "drop_remaining rest s1 = Inr s'" and r: "fds s' = []" "loop_inv s' nl"
     "working s' = working s1" "length (nodes s') = length (nodes s1)"
     "\<forall>a. a \<notin> set rest \<longrightarrow> node_at s' a = node_at s1 a"
     "\<forall>a\<in>set rest. node_at s' a = (case node_at s1 a of None \<Rightarrow> None | Some n \<Rightarrow> unreffed n)"
     "trace s' = trace s1 @ es"
     "set es \<subseteq> (\<Union>a\<in>set rest. insert (Fd_shutdown a) (set (release_events a)))"
     "\<forall>a\<in>set rest. Fd_shutdown a \<in> set es"
     "\<forall>a\<in>set rest. node_at s' a = None \<longrightarrow> set (release_events a) \<subseteq> set es"
    by blast
  have res: "drop_remaining (cur # rest) s = Inr s'"
    using n u d by (simp add: s0_def)
  have cur: "cur \<notin> set rest" using dist by simp
  let ?es = "[Fd_shutdown cur] @ (if refs n = 1 then release_events cur else []) @ es"
  have c1: "\<forall>a. a \<notin> set (cur # rest) \<longrightarrow> node_at s' a = node_at s a"
    using r(5) na1 by simp
  have c2: "\<forall>a\<in>set (cur # rest). node_at s' a = (case node_at s a of None \<Rightarrow> None | Some n \<Rightarrow> unreffed n)"
    using r(5,6) na1 cur n by auto
  have c3: "set ?es \<subseteq> (\<Union>a\<in>set (cur # rest). insert (Fd_shutdown a) (set (release_events a)))"
    using r(8) by auto
  have c4: "\<forall>a\<in>set (cur # rest). Fd_shutdown a \<in> set ?es"
    using r(9) by auto
  have c5: "\<forall>a\<in>set (cur # rest). node_at s' a = None \<longrightarrow> set (release_events a) \<subseteq> set ?es"
  proof (intro ballI impI)
    fix a assume a: "a \<in> set (cur # rest)" and z: "node_at s' a = None"
    show "set (release_events a) \<subseteq> set ?es"
    proof (cases "a = cur")
      case True
      with z r(5) cur na1 have "unreffed n = None" by simp
      then have "refs n = 1" by (simp add: unreffed_def split: if_splits)
      with True show ?thesis by auto
    next
      case False
      with a z r(10) show ?thesis by auto
    qed
  qed
  show ?case
    apply (rule exI[of _ s'], rule exI[of _ ?es])
    using res r(1-4) w1 l1 c1 c2 c3 c4 c5 r(7) t1 by simp
qed

section \<open>A reconciliation pass\<close>

lemma serves_emit: "serves (emit es s) s' a t = serves s s' a t"
  by (simp add: serves_def heap_simps)

lemma serves_cong:
  "node_at s2 a = node_at s1 a \<Longrightarrow> serves s s2 a t = serves s s1 a t"
  by (auto simp: serves_def split: prod.splits option.splits)

lemma pass_event_emit: "pass_event (emit es s) e = pass_event s e"
  by (cases e) (simp_all add: heap_simps split: option.splits)

lemma pass_event_release: "a \<in> set (fds s) \<Longrightarrow> e \<in> insert (Fd_shutdown a) (set (release_events a)) \<Longrightarrow> pass_event s e"
  by (auto simp: release_events_def)

lemma driver_inv_loop_inv: "driver_inv s = loop_inv s []"
  by (simp add: driver_inv_def loop_inv_def)

lemma cells_ok_fields:
  "nodes s' = nodes s \<Longrightarrow> cells_ok L s' = cells_ok L s"
  by (simp add: cells_ok_def)

lemma notify_post:
  assumes inv: "driver_inv s"
  shows "\<exists>s'. grpc_ares_notify_on_event_locked snap s = Inr s' \<and> pass_post snap s s'"
proof -
  define s0 where "s0 = emit [Ares_getsock] s"
  have s0: "node_at s0 = node_at s" "fds s0 = fds s" "working s0 = working s"
    "nodes s0 = nodes s" "trace s0 = trace s @ [Ares_getsock]"
    by (simp_all add: s0_def heap_simps)
  have li0: "loop_inv s0 []"
    using inv s0 unfolding driver_inv_def loop_inv_def by (simp add: cells_ok_fields[of s0 s])
  from slots_loop_post[OF li0, of snap "[0..<ARES_GETSOCK_MAXNUM]"]
  obtain s1 nl where l: "slots_loop snap [0..<ARES_GETSOCK_MAXNUM] (s0, []) = Inr (s1, nl)"
    and li1: "loop_inv s1 nl" and lp: "loop_post snap [0..<ARES_GETSOCK_MAXNUM] s0 [] s1 nl"
    by blast
  from lp obtain es1 where g: "grows s0 s1"
    and sv: "list_all2 (serves s0 s1) nl (rev (reported snap))"
    and sub: "set (fds s0) \<subseteq> set (fds s1) \<union> set nl"
    and tr1: "trace s1 = trace s0 @ es1" and pe1: "\<forall>e\<in>set es1. pass_event s0 e"
    and pa1: "\<forall>a\<in>set nl. length (nodes s0) \<le> a \<longrightarrow> Pollset_set_add_fd a \<in> set es1"
    unfolding loop_post_def reported_def by auto
  from drop_remaining_post[OF li1 refl]
  obtain s2 es2 where d: "drop_remaining (fds s1) s1 = Inr s2" and f2: "fds s2 = []"
    and li2: "loop_inv s2 nl" and w2: "working s2 = working s1"
    and l2: "length (nodes s2) = length (nodes s1)"
    and k2: "\<forall>a. a \<notin> set (fds s1) \<longrightarrow> node_at s2 a = node_at s1 a"
    and u2: "\<forall>a\<in>set (fds s1). node_at s2 a = (case node_at s1 a of None \<Rightarrow> None | Some n \<Rightarrow> unreffed n)"
    and tr2: "trace s2 = trace s1 @ es2"
    and e2: "set es2 \<subseteq> (\<Union>a\<in>set (fds s1). insert (Fd_shutdown a) (set (release_events a)))"
    and sh2: "\<forall>a\<in>set (fds s1). Fd_shutdown a \<in> set es2"
    and rl2: "\<forall>a\<in>set (fds s1). node_at s2 a = None \<longrightarrow> set (release_events a) \<subseteq> set es2"
    by blast
  define s' where "s' = (if nl = [] then s2\<lparr>fds := nl, working := False\<rparr> else s2\<lparr>fds := nl\<rparr>)"
  have res: "grpc_ares_notify_on_event_locked snap s = Inr s'"
    using l d by (simp add: grpc_ares_notify_on_event_locked_def s0_def s'_def)
  have s': "node_at s' = node_at s2" "fds s' = nl" "nodes s' = nodes s2" "trace s' = trace s2"
    "working s' = (working s2 \<and> nl \<noteq> [])"
    by (auto simp: s'_def heap_simps node_at_def fun_eq_iff)
  have dist1: "distinct (fds s1 @ nl)" using li1 by (simp add: loop_inv_def)
  have c1: "driver_inv s'"
    using li2 f2 s' unfolding driver_inv_def loop_inv_def by (simp add: cells_ok_fields[of s' s2])
  have c2: "working s' = (working s \<and> fds s' \<noteq> [])"
    using s' w2 g s0 by (auto simp: grows_def)
  have keep: "node_at s' a = node_at s1 a" if "a \<in> set nl" for a
    using that dist1 k2 s' by auto
  have c3: "list_all2 (serves s s') (fds s') (rev (reported snap))"
    unfolding s'(2) using sv
    by (rule list.rel_mono_strong) (simp add: serves_cong[OF keep] s0_def serves_emit)
  have c4: "length (nodes s) \<le> length (nodes s')"
    using s' l2 g s0 by (simp add: grows_def)
  have c5: "\<forall>a. a < length (nodes s) \<longrightarrow> a \<notin> set (fds s) \<longrightarrow> node_at s' a = node_at s a"
  proof (intro allI impI)
    fix a assume a: "a < length (nodes s)" "a \<notin> set (fds s)"
    with g s0 have "node_at s1 a = node_at s a" "a \<notin> set (fds s1)" by (auto simp: grows_def)
    with k2 s' show "node_at s' a = node_at s a" by simp
  qed
  have dropped: "a \<in> set (fds s1) \<and> node_at s1 a = node_at s a"
    if "a \<in> set (fds s)" "a \<notin> set nl" for a
    using that sub g s0 by (auto simp: grows_def)
  have c6: "\<forall>a\<in>set (fds s). a \<notin> set (fds s') \<longrightarrow>
            node_at s' a = (case node_at s a of None \<Rightarrow> None | Some n \<Rightarrow> unreffed n)"
    using dropped u2 s' by auto
  let ?es = "[Ares_getsock] @ es1 @ es2"
  have t: "trace s' = trace s @ ?es" using s' tr2 tr1 s0 by simp
  have sub1: "set (fds s1) \<subseteq> set (fds s)" using g s0 by (auto simp: grows_def)
  have pe: "\<forall>e\<in>set ?es. pass_event s e"
  proof
    fix e assume "e \<in> set ?es"
    then consider "e = Ares_getsock" | "e \<in> set es1" | "e \<in> set es2" by auto
    then show "pass_event s e"
    proof cases
      case 1 then show ?thesis by simp
    next
      case 2 with pe1 show ?thesis by (simp add: s0_def pass_event_emit)
    next
      case 3
      with e2 obtain a where "a \<in> set (fds s1)" "e \<in> insert (Fd_shutdown a) (set (release_events a))"
        by blast
      with sub1 show ?thesis using pass_event_release[of a s e] by blast
    qed
  qed
  have pa: "\<forall>a\<in>set (fds s'). length (nodes s) \<le> a \<longrightarrow> Pollset_set_add_fd a \<in> set ?es"
    using pa1 s' s0 by simp
  have sh: "\<forall>a\<in>set (fds s). a \<notin> set (fds s') \<longrightarrow>
                  Fd_shutdown a \<in> set ?es
                  \<and> (node_at s' a = None \<longrightarrow> set (release_events a) \<subseteq> set ?es)"
    using dropped sh2 rl2 s' by auto
  have "pass_post snap s s'"
    unfolding pass_post_def
    apply (intro conjI c1 c2 c3 c4 c5 c6)
    apply (rule exI[of _ ?es])
    using t pe pa sh by blast
  with res show ?thesis by blast
qed

section \<open>Firings and start\<close>

lemma events_since_append: "trace s' = trace s @ es \<Longrightarrow> events_since s s' = es"
  by (simp add: events_since_def)

lemma driver_inv_fields:
  "nodes s' = nodes s \<Longrightarrow> fds s' = fds s \<Longrightarrow> driver_inv s' = driver_inv s"
  by (simp add: driver_inv_def cells_ok_def)

lemma driver_inv_emit: "driver_inv (emit es s) = driver_inv s"
  by (rule driver_inv_fields) (simp_all add: heap_simps)

lemma driver_inv_live: "driver_inv s \<Longrightarrow> a \<in> set (fds s) \<Longrightarrow> \<exists>n. node_at s a = Some n \<and> node_ok True n"
  unfolding driver_inv_def by (rule cells_ok_linked) auto

lemma driver_inv_unlinked: "driver_inv s \<Longrightarrow> node_at s a = Some n \<Longrightarrow> a \<notin> set (fds s) \<Longrightarrow> node_ok False n"
  unfolding driver_inv_def by (rule cells_ok_unlinked) auto

lemma driver_inv_node: "driver_inv s \<Longrightarrow> node_at s a = Some n \<Longrightarrow> node_ok (a \<in> set (fds s)) n"
  using driver_inv_live[of s a] driver_inv_unlinked[of s a n] by (cases "a \<in> set (fds s)") auto

lemma node_ok_fired_read:
  assumes "node_ok l n" "readable_registered n"
  shows "refs (n\<lparr>readable_registered := False\<rparr>) = 1 \<Longrightarrow>
           \<not> readable_registered (n\<lparr>readable_registered := False\<rparr>)
           \<and> \<not> writable_registered (n\<lparr>readable_registered := False\<rparr>)"
    and "refs n \<noteq> 1 \<Longrightarrow> node_ok l (n\<lparr>readable_registered := False, refs := refs n - 1\<rparr>)"
    and "refs n = 1 \<Longrightarrow> \<not> l \<and> \<not> writable_registered n"
  using assms by (cases l; cases "writable_registered n"; simp add: node_ok_def)+

lemma node_ok_fired_write:
  assumes "node_ok l n" "writable_registered n"
  shows "refs (n\<lparr>writable_registered := False\<rparr>) = 1 \<Longrightarrow>
           \<not> readable_registered (n\<lparr>writable_registered := False\<rparr>)
           \<and> \<not> writable_registered (n\<lparr>writable_registered := False\<rparr>)"
    and "refs n \<noteq> 1 \<Longrightarrow> node_ok l (n\<lparr>writable_registered := False, refs := refs n - 1\<rparr>)"
    and "refs n = 1 \<Longrightarrow> \<not> l \<and> \<not> readable_registered n"
  using assms by (cases l; cases "readable_registered n"; simp add: node_ok_def)+

text \<open>A firing: the flag is cleared and one reference released; then the pass.\<close>

lemma fired_inv:
  assumes inv: "driver_inv s" and n: "node_at s a = Some n"
    and ok1: "refs n' = 1 \<Longrightarrow> \<not> readable_registered n' \<and> \<not> writable_registered n'"
    and ok2: "refs n' \<noteq> 1 \<Longrightarrow> node_ok (a \<in> set (fds s)) (n'\<lparr>refs := refs n' - 1\<rparr>)"
    and ok3: "refs n' = 1 \<Longrightarrow> a \<notin> set (fds s)"
  shows "\<exists>s1. fd_node_unref a (emit es (put_node a n' s)) = Inr s1
     \<and> node_at s1 = (node_at s)(a := unreffed n') \<and> fds s1 = fds s \<and> working s1 = working s
     \<and> length (nodes s1) = length (nodes s)
     \<and> trace s1 = trace s @ es @ (if refs n' = 1 then release_events a else [])
     \<and> driver_inv s1"
proof -
  have l: "a < length (nodes s)" using n by (rule node_at_less)
  define s0 where "s0 = emit es (put_node a n' s)"
  have s0: "node_at s0 = (node_at s)(a \<mapsto> n')" "fds s0 = fds s" "working s0 = working s"
    "length (nodes s0) = length (nodes s)" "trace s0 = trace s @ es"
    using l by (simp_all add: s0_def heap_simps)
  then have "node_at s0 a = Some n'" by simp
  from fd_node_unref_effect[OF this ok1]
  obtain s1 where u: "fd_node_unref a s0 = Inr s1" and na: "node_at s1 = (node_at s)(a := unreffed n')"
    and f: "fds s1 = fds s" "working s1 = working s" "length (nodes s1) = length (nodes s)"
    "trace s1 = trace s @ es @ (if refs n' = 1 then release_events a else [])"
    using s0 by auto
  from inv have dist: "distinct (fds s)" and ck: "cells_ok (fds s) s" by (simp_all add: driver_inv_def)
  have "cells_ok (fds s1) s1"
    unfolding cells_ok_iff f
  proof
    fix b
    show "case node_at s1 b of None \<Rightarrow> b \<notin> set (fds s) | Some n \<Rightarrow> node_ok (b \<in> set (fds s)) n"
    proof (cases "b = a")
      case True
      then show ?thesis using na ok2 ok3 by (auto simp: unreffed_def)
    next
      case False
      then show ?thesis using na ck[unfolded cells_ok_iff, rule_format, of b]
        by (auto split: option.splits)
    qed
  qed
  with dist f have "driver_inv s1" by (simp add: driver_inv_def)
  with u na f show ?thesis unfolding s0_def by blast
qed

lemma on_readable_cb_post:
  assumes inv: "driver_inv s" and n: "node_at s a = Some n" and r: "readable_registered n"
  shows "\<exists>s1 s2. node_at s1 = (node_at s)(a := unreffed (n\<lparr>readable_registered := False\<rparr>))
     \<and> fds s1 = fds s \<and> working s1 = working s \<and> length (nodes s1) = length (nodes s)
     \<and> trace s1 = trace s @ read_fired a n err @ (if refs n = 1 then release_events a else [])
                    @ [Mu_lock Driver_mu]
     \<and> driver_inv s1
     \<and> grpc_ares_notify_on_event_locked snap s1 = Inr s2 \<and> pass_post snap s1 s2
     \<and> on_readable_cb a err snap s = Inr (emit [Mu_unlock Driver_mu] s2)"
proof -
  let ?n' = "n\<lparr>readable_registered := False\<rparr>"
  note ok = driver_inv_node[OF inv n]
  from fired_inv[OF inv n, of ?n' "read_fired a n err"] node_ok_fired_read[OF ok r]
  obtain s0 where u: "fd_node_unref a (emit (read_fired a n err) (put_node a ?n' s)) = Inr s0"
    and s0: "node_at s0 = (node_at s)(a := unreffed ?n')" "fds s0 = fds s" "working s0 = working s"
      "length (nodes s0) = length (nodes s)"
      "trace s0 = trace s @ read_fired a n err @ (if refs n = 1 then release_events a else [])"
      "driver_inv s0"
    by auto
  define s1 where "s1 = emit [Mu_lock Driver_mu] s0"
  have s1: "node_at s1 = (node_at s)(a := unreffed ?n')" "fds s1 = fds s" "working s1 = working s"
      "length (nodes s1) = length (nodes s)"
      "trace s1 = trace s @ read_fired a n err @ (if refs n = 1 then release_events a else [])
           @ [Mu_lock Driver_mu]"
      "driver_inv s1"
    using s0 by (simp_all add: s1_def heap_simps driver_inv_emit)
  from notify_post[OF s1(6), of snap]
  obtain s2 where p: "grpc_ares_notify_on_event_locked snap s1 = Inr s2" "pass_post snap s1 s2"
    by blast
  have "on_readable_cb a err snap s = Inr (emit [Mu_unlock Driver_mu] s2)"
    using n u p(1) unfolding on_readable_cb_def s1_def read_fired_def by simp
  with s1 p show ?thesis by blast
qed

lemma on_writable_cb_post:
  assumes inv: "driver_inv s" and n: "node_at s a = Some n" and r: "writable_registered n"
  shows "\<exists>s1 s2. node_at s1 = (node_at s)(a := unreffed (n\<lparr>writable_registered := False\<rparr>))
     \<and> fds s1 = fds s \<and> working s1 = working s \<and> length (nodes s1) = length (nodes s)
     \<and> trace s1 = trace s @ write_fired a n err @ (if refs n = 1 then release_events a else [])
                    @ [Mu_lock Driver_mu]
     \<and> driver_inv s1
     \<and> grpc_ares_notify_on_event_locked snap s1 = Inr s2 \<and> pass_post snap s1 s2
     \<and> on_writable_cb a err snap s = Inr (emit [Mu_unlock Driver_mu] s2)"
proof -
  let ?n' = "n\<lparr>writable_registered := False\<rparr>"
  note ok = driver_inv_node[OF inv n]
  from fired_inv[OF inv n, of ?n' "write_fired a n err"] node_ok_fired_write[OF ok r]
  obtain s0 where u: "fd_node_unref a (emit (write_fired a n err) (put_node a ?n' s)) = Inr s0"
    and s0: "node_at s0 = (node_at s)(a := unreffed ?n')" "fds s0 = fds s" "working s0 = working s"
      "length (nodes s0) = length (nodes s)"
      "trace s0 = trace s @ write_fired a n err @ (if refs n = 1 then release_events a else [])"
      "driver_inv s0"
    by auto
  define s1 where "s1 = emit [Mu_lock Driver_mu] s0"
  have s1: "node_at s1 = (node_at s)(a := unreffed ?n')" "fds s1 = fds s" "working s1 = working s"
      "length (nodes s1) = length (nodes s)"
      "trace s1 = trace s @ write_fired a n err @ (if refs n = 1 then release_events a else [])
           @ [Mu_lock Driver_mu]"
      "driver_inv s1"
    using s0 by (simp_all add: s1_def heap_simps driver_inv_emit)
  from notify_post[OF s1(6), of snap]
  obtain s2 where p: "grpc_ares_notify_on_event_locked snap s1 = Inr s2" "pass_post snap s1 s2"
    by blast
  have "on_writable_cb a err snap s = Inr (emit [Mu_unlock Driver_mu] s2)"
    using n u p(1) unfolding on_writable_cb_def s1_def write_fired_def by simp
  with s1 p show ?thesis by blast
qed

lemma start_post:
  assumes inv: "driver_inv s"
  shows "\<exists>s'. grpc_ares_ev_driver_start snap s = Inr s' \<and>
     (if working s then s' = emit [Mu_lock Driver_mu, Mu_unlock Driver_mu] s
      else (\<exists>s2. grpc_ares_notify_on_event_locked snap (emit [Mu_lock Driver_mu] (s\<lparr>working := True\<rparr>)) = Inr s2
              \<and> pass_post snap (emit [Mu_lock Driver_mu] (s\<lparr>working := True\<rparr>)) s2
              \<and> s' = emit [Mu_unlock Driver_mu] s2))"
proof (cases "working s")
  case True
  then show ?thesis by (simp add: grpc_ares_ev_driver_start_def)
next
  case False
  have "driver_inv (emit [Mu_lock Driver_mu] (s\<lparr>working := True\<rparr>))"
    using inv by (simp add: driver_inv_emit driver_inv_fields[of "s\<lparr>working := True\<rparr>" s])
  from notify_post[OF this, of snap] False show ?thesis
    by (auto simp: grpc_ares_ev_driver_start_def)
qed

section \<open>Which node each slot takes\<close>

lemma assign_slots_append:
  "assign_slots w (xs @ ys) acc = assign_slots w ys (assign_slots w xs acc)"
proof (induction xs arbitrary: acc)
  case Nil
  then show ?case by simp
next
  case (Cons t xs)
  obtain old nxt nl where acc: "acc = (old, nxt, nl)" by (cases acc) auto
  show ?case unfolding acc using Cons.IH by (simp split: option.splits)
qed

lemma find_cong_set: "\<forall>a\<in>set xs. P a = Q a \<Longrightarrow> find P xs = find Q xs"
  by (induction xs) auto

lemma assign_slots_cong:
  "\<forall>a\<in>set old. w a = w' a \<Longrightarrow> assign_slots w ts (old, nxt, nl) = assign_slots w' ts (old, nxt, nl)"
proof (induction ts arbitrary: old nxt nl)
  case Nil
  then show ?case by simp
next
  case (Cons t ts)
  have f: "find (\<lambda>a. w a = Some (fst t)) old = find (\<lambda>a. w' a = Some (fst t)) old"
    using Cons.prems by (intro find_cong_set) simp
  show ?case
  proof (cases "find (\<lambda>a. w' a = Some (fst t)) old")
    case None
    with f Cons.IH[OF Cons.prems] show ?thesis by simp
  next
    case (Some a)
    have "\<forall>b\<in>set (remove1 a old). w b = w' b"
      using Cons.prems by (meson notin_set_remove1)
    from Cons.IH[OF this] f Some show ?thesis by simp
  qed
qed

lemma find_first: "\<forall>b\<in>set pre. \<not> P b \<Longrightarrow> P a \<Longrightarrow> find P (pre @ a # post) = Some a"
  by (induction pre) auto

lemma remove1_middle: "a \<notin> set pre \<Longrightarrow> remove1 a (pre @ a # post) = pre @ post"
  by (induction pre) auto

lemma slot_body_assign:
  assumes li: "loop_inv s nl" and r: "slot_body snap i (s, nl) = Inr (s', nl')"
  shows "assign_slots (\<lambda>a. map_option grpc_fd (node_at s a)) (reported_on snap [i])
           (fds s, length (nodes s), nl) = (fds s', length (nodes s'), nl')"
proof (cases "ARES_GETSOCK_READABLE (socks_bitmask snap) i \<or> ARES_GETSOCK_WRITABLE (socks_bitmask snap) i")
  case False
  with r show ?thesis by (auto simp: slot_body_inactive reported_on_single)
next
  case True
  let ?fd = "socks snap i"
  let ?P = "\<lambda>a. map_option grpc_fd (node_at s a) = Some ?fd"
  have live: "\<forall>a\<in>set (fds s). node_at s a \<noteq> None"
    using loop_inv_live[OF li] by fastforce
  from li have dist: "distinct (fds s)" by (simp add: loop_inv_def)
  from slot_body_effect[OF live True, of nl] r
  obtain fdn n0 where nl': "nl' = fdn # nl"
    and alt: "(\<exists>pre post. fds s = pre @ fdn # post \<and> fds s' = pre @ post \<and> node_at s fdn = Some n0
            \<and> grpc_fd n0 = ?fd
            \<and> (\<forall>b\<in>set pre. \<forall>m. node_at s b = Some m \<longrightarrow> grpc_fd m \<noteq> ?fd)
            \<and> length (nodes s') = length (nodes s))
         \<or> (fdn = length (nodes s)
            \<and> fds s' = fds s \<and> length (nodes s') = Suc (length (nodes s))
            \<and> (\<forall>a\<in>set (fds s). \<forall>n. node_at s a = Some n \<longrightarrow> grpc_fd n \<noteq> ?fd))"
    by auto
  have rep: "reported_on snap [i] = [(?fd, ARES_GETSOCK_READABLE (socks_bitmask snap) i,
             ARES_GETSOCK_WRITABLE (socks_bitmask snap) i)]"
    using True by (simp add: reported_on_single)
  from alt show ?thesis
  proof
    assume "\<exists>pre post. fds s = pre @ fdn # post \<and> fds s' = pre @ post \<and> node_at s fdn = Some n0
            \<and> grpc_fd n0 = ?fd
            \<and> (\<forall>b\<in>set pre. \<forall>m. node_at s b = Some m \<longrightarrow> grpc_fd m \<noteq> ?fd)
            \<and> length (nodes s') = length (nodes s)"
    then obtain pre post where f: "fds s = pre @ fdn # post" and f': "fds s' = pre @ post"
      and n0: "node_at s fdn = Some n0" "grpc_fd n0 = ?fd"
      and np: "\<forall>b\<in>set pre. \<forall>m. node_at s b = Some m \<longrightarrow> grpc_fd m \<noteq> ?fd"
      and len: "length (nodes s') = length (nodes s)"
      by blast
    have "\<forall>b\<in>set pre. \<not> ?P b" using np by auto
    moreover have "?P fdn" using n0 by simp
    ultimately have fnd: "find ?P (fds s) = Some fdn" unfolding f by (rule find_first)
    have "fdn \<notin> set pre" using dist f by auto
    then have "remove1 fdn (fds s) = fds s'" unfolding f f' by (rule remove1_middle)
    with fnd len nl' show ?thesis unfolding rep by simp
  next
    assume "fdn = length (nodes s)
            \<and> fds s' = fds s \<and> length (nodes s') = Suc (length (nodes s))
            \<and> (\<forall>a\<in>set (fds s). \<forall>n. node_at s a = Some n \<longrightarrow> grpc_fd n \<noteq> ?fd)"
    then have fdn: "fdn = length (nodes s)" and f': "fds s' = fds s"
      and len: "length (nodes s') = Suc (length (nodes s))"
      and no: "\<forall>a\<in>set (fds s). \<forall>n. node_at s a = Some n \<longrightarrow> grpc_fd n \<noteq> ?fd"
      by blast+
    have "find ?P (fds s) = None" unfolding find_None_iff using no by auto
    with fdn f' len nl' show ?thesis unfolding rep by simp
  qed
qed

lemma slots_loop_assign:
  "loop_inv s nl \<Longrightarrow> slots_loop snap is (s, nl) = Inr (s', nl') \<Longrightarrow>
   assign_slots (\<lambda>a. map_option grpc_fd (node_at s a)) (reported_on snap is)
     (fds s, length (nodes s), nl) = (fds s', length (nodes s'), nl')"
proof (induction "is" arbitrary: s nl)
  case Nil
  then show ?case by (simp add: reported_on_Nil)
next
  case (Cons i "is")
  from slot_body_step[OF Cons.prems(1), of snap i]
  obtain s1 nl1 where b: "slot_body snap i (s, nl) = Inr (s1, nl1)" and li1: "loop_inv s1 nl1"
    and p1: "loop_post snap [i] s nl s1 nl1" by blast
  from Cons.prems(2) b have l: "slots_loop snap is (s1, nl1) = Inr (s', nl')" by simp
  from p1 have same: "\<forall>a\<in>set (fds s1). map_option grpc_fd (node_at s a) = map_option grpc_fd (node_at s1 a)"
    by (simp add: loop_post_def grows_def)
  have "reported_on snap (i # is) = reported_on snap [i] @ reported_on snap is"
    using reported_on_append[of snap "[i]" "is"] by simp
  then show ?case
    using slot_body_assign[OF Cons.prems(1) b] Cons.IH[OF li1 l]
      assign_slots_cong[OF same, of "reported_on snap is" "length (nodes s1)" nl1]
    by (simp add: assign_slots_append)
qed

lemma notify_assign:
  assumes inv: "driver_inv s" and r: "grpc_ares_notify_on_event_locked snap s = Inr s'"
  shows "snd (assign_slots (\<lambda>a. map_option grpc_fd (node_at s a)) (reported snap)
                (fds s, length (nodes s), [])) = (length (nodes s'), fds s')"
proof -
  define s0 where "s0 = emit [Ares_getsock] s"
  have s0: "node_at s0 = node_at s" "fds s0 = fds s" "nodes s0 = nodes s"
    by (simp_all add: s0_def heap_simps)
  have li0: "loop_inv s0 []"
    using inv s0 unfolding driver_inv_def loop_inv_def by (simp add: cells_ok_fields[of s0 s])
  from slots_loop_post[OF li0, of snap "[0..<ARES_GETSOCK_MAXNUM]"]
  obtain s1 nl where l: "slots_loop snap [0..<ARES_GETSOCK_MAXNUM] (s0, []) = Inr (s1, nl)"
    and li1: "loop_inv s1 nl" by blast
  from drop_remaining_post[OF li1 refl]
  obtain s2 where d: "drop_remaining (fds s1) s1 = Inr s2"
    and l2: "length (nodes s2) = length (nodes s1)" by blast
  from r l d have s': "s' = (if nl = [] then s2\<lparr>fds := nl, working := False\<rparr> else s2\<lparr>fds := nl\<rparr>)"
    by (simp add: grpc_ares_notify_on_event_locked_def s0_def)
  then have f: "fds s' = nl" "length (nodes s') = length (nodes s1)" using l2 by auto
  from slots_loop_assign[OF li0 l] s0 f show ?thesis by (simp add: reported_def)
qed

text \<open>The first node of the old collection that wraps a reported descriptor is in
  the new collection.\<close>

lemma assign_slots_keeps_acc:
  "assign_slots w ts (old, nxt, nl) = (old', nxt', nl') \<Longrightarrow> set nl \<subseteq> set nl'"
proof (induction ts arbitrary: old nxt nl)
  case Nil
  then show ?case by simp
next
  case (Cons t ts)
  show ?case
  proof (cases "find (\<lambda>a. w a = Some (fst t)) old")
    case None
    with Cons.prems have "assign_slots w ts (old, Suc nxt, nxt # nl) = (old', nxt', nl')" by simp
    from Cons.IH[OF this] show ?thesis by auto
  next
    case (Some a)
    with Cons.prems have "assign_slots w ts (remove1 a old, nxt, a # nl) = (old', nxt', nl')" by simp
    from Cons.IH[OF this] show ?thesis by auto
  qed
qed

lemma find_remove1_other: "\<not> P c \<Longrightarrow> find P (remove1 c xs) = find P xs"
  by (induction xs) auto

lemma assign_slots_keeps_first:
  assumes "assign_slots w ts (old, nxt, nl) = (old', nxt', nl')"
    and "t \<in> set ts" and "find (\<lambda>a. w a = Some (fst t)) old = Some a"
  shows "a \<in> set nl'"
  using assms
proof (induction ts arbitrary: old nxt nl)
  case Nil
  then show ?case by simp
next
  case (Cons u ts)
  show ?case
  proof (cases "fst u = fst t")
    case True
    with Cons.prems(1,3) have "assign_slots w ts (remove1 a old, nxt, a # nl) = (old', nxt', nl')"
      by simp
    from assign_slots_keeps_acc[OF this] show ?thesis by simp
  next
    case False
    with Cons.prems(2) have t: "t \<in> set ts" by auto
    show ?thesis
    proof (cases "find (\<lambda>a. w a = Some (fst u)) old")
      case None
      with Cons.prems(1) have "assign_slots w ts (old, Suc nxt, nxt # nl) = (old', nxt', nl')" by simp
      from Cons.IH[OF this t Cons.prems(3)] show ?thesis .
    next
      case (Some c)
      then have "w c = Some (fst u)" by (auto simp: find_Some_iff)
      with False have "\<not> w c = Some (fst t)" by simp
      then have k: "find (\<lambda>a. w a = Some (fst t)) (remove1 c old) = Some a"
        using Cons.prems(3) by (simp add: find_remove1_other)
      from Some Cons.prems(1)
      have "assign_slots w ts (remove1 c old, nxt, c # nl) = (old', nxt', nl')" by simp
      from Cons.IH[OF this t k] show ?thesis .
    qed
  qed
qed

lemma notify_keeps_first:
  assumes inv: "driver_inv s" and r: "grpc_ares_notify_on_event_locked snap s = Inr s'"
    and t: "t \<in> set (reported snap)"
    and f: "find (\<lambda>a. map_option grpc_fd (node_at s a) = Some (fst t)) (fds s) = Some a"
  shows "a \<in> set (fds s')"
proof -
  obtain old' nxt' nl'
    where a: "assign_slots (\<lambda>a. map_option grpc_fd (node_at s a)) (reported snap)
                (fds s, length (nodes s), []) = (old', nxt', nl')"
    by (metis prod_cases3)
  with notify_assign[OF inv r] have "nl' = fds s'" by simp
  with assign_slots_keeps_first[OF a t f] show ?thesis by simp
qed

section \<open>The example states\<close>

lemma driver_inv_new_driver: "driver_inv new_driver"
  by (simp add: driver_inv_def cells_ok_def new_driver_def)

lemma two_tracked_facts:
  "driver_inv two_tracked"
  "node_at two_tracked 0 = Some \<lparr>refs = 2, grpc_fd = 5, readable_registered = True, writable_registered = False\<rparr>"
  "fds two_tracked = [1, 0]"
  unfolding two_tracked_def by code_simp+

lemma one_tracked_facts:
  "driver_inv one_tracked"
  "node_at one_tracked 0 = Some \<lparr>refs = 3, grpc_fd = 5, readable_registered = True, writable_registered = True\<rparr>"
  "fds one_tracked = [0]"
  unfolding one_tracked_def by code_simp+

lemma one_unlinked_facts:
  "driver_inv one_unlinked"
  "node_at one_unlinked 0 = Some \<lparr>refs = 1, grpc_fd = 5, readable_registered = False, writable_registered = True\<rparr>"
  "fds one_unlinked = []"
  unfolding one_unlinked_def one_tracked_def by code_simp+

lemma read_pending_unlinked_facts:
  "driver_inv read_pending_unlinked"
  "node_at read_pending_unlinked 0 = Some \<lparr>refs = 1, grpc_fd = 5, readable_registered = True, writable_registered = False\<rparr>"
  "fds read_pending_unlinked = []"
  unfolding read_pending_unlinked_def one_tracked_def by code_simp+

lemma reported_snap_none: "reported snap_none = []"
  by code_simp

lemma one_passed_facts:
  "passes [snap_5rw] new_driver = Inr one_passed"
  "node_at one_passed 0 = Some \<lparr>refs = 3, grpc_fd = 5, readable_registered = True, writable_registered = True\<rparr>"
  "fds one_passed = [0]"
  "length (nodes one_passed) = 1"
  unfolding one_passed_def by code_simp+

lemma one_tracked_length: "length (nodes one_tracked) = 1"
  unfolding one_tracked_def by code_simp

lemma reported_snap_5w: "reported snap_5w = [(5, False, True)]"
  by code_simp

lemma reported_snap_5r_5r: "reported snap_5r_5r = [(5, True, False), (5, True, False)]"
  by code_simp

section \<open>Teardown\<close>

text \<open>
  C1 (fails on the code). The claim: \<^verbatim>\<open>destroy()\<close> shuts down every node of the
  collection. The loop of \<^verbatim>\<open>grpc_ares_ev_driver_destroy\<close> advances twice per round.
  With the two descriptors 5 and 7 tracked, each holding a pending read
  registration, it shuts down the head of the list only and returns; with one
  descriptor tracked it dereferences \<^verbatim>\<open>NULL\<close>.
\<close>

theorem destroy_skips_second_node:
  "grpc_ares_ev_driver_start snap_5r_7r new_driver = Inr two_tracked
   \<and> tracked two_tracked =
       [Some \<lparr>refs = 2, grpc_fd = 7, readable_registered = True, writable_registered = False\<rparr>,
        Some \<lparr>refs = 2, grpc_fd = 5, readable_registered = True, writable_registered = False\<rparr>]
   \<and> fds two_tracked = [1, 0]
   \<and> grpc_ares_ev_driver_destroy two_tracked =
       Inr (emit [Mu_lock Driver_mu, Fd_shutdown 1, Mu_unlock Driver_mu, Sched_cleanup] two_tracked)
   \<and> grpc_ares_ev_driver_start snap_5rw new_driver = Inr one_tracked
   \<and> fds one_tracked = [0]
   \<and> grpc_ares_ev_driver_destroy one_tracked = Inl Null_dereference"
  unfolding two_tracked_def one_tracked_def by code_simp

section \<open>Creation\<close>

text \<open>
  C2 (fails on the code). The claim: when \<^verbatim>\<open>ares_init\<close> fails, the process-wide
  count of the engine library is decremented again before \<^verbatim>\<open>create()\<close> returns.
  With the library initialised and \<^verbatim>\<open>ares_init\<close> returning 15, \<^verbatim>\<open>create()\<close> returns
  the error and frees the driver, and the count stays incremented: the failure
  path does not call \<^verbatim>\<open>grpc_ares_cleanup\<close>.
\<close>

theorem create_failure_keeps_library_count:
  "grpc_ares_ev_driver_create ares_strerror GRPC_ERROR_NONE 15 lib =
     (GRPC_ERROR_CREATE (''Failed to init ares channel. C-ares error: '' @ ares_strerror 15),
      Freed, lib + 1)"
  by (simp add: grpc_ares_ev_driver_create_def grpc_ares_init_def ARES_SUCCESS_def)

section \<open>Sequences of passes\<close>

lemma passes_append:
  "passes (xs @ ys) s = (case passes xs s of Inl e \<Rightarrow> Inl e | Inr s1 \<Rightarrow> passes ys s1)"
  by (induction xs arbitrary: s) (auto split: sum.splits)

lemma passes_inv:
  "driver_inv s \<Longrightarrow> \<exists>s'. passes snaps s = Inr s' \<and> driver_inv s'"
proof (induction snaps arbitrary: s)
  case Nil
  then show ?case by simp
next
  case (Cons snap snaps)
  from notify_post[OF Cons.prems, of snap]
  obtain s1 where "grpc_ares_notify_on_event_locked snap s = Inr s1" "driver_inv s1"
    by (auto simp: pass_post_def)
  with Cons.IH[of s1] show ?case by simp
qed

lemma serves_fd:
  "serves s s' a t \<Longrightarrow> map_option grpc_fd (node_at s' a) = Some (fst t)"
  by (auto simp: serves_def registered_simps fresh_node_def split: prod.splits if_splits option.splits)

lemma list_all2_map_eq:
  "list_all2 P xs ys \<Longrightarrow> (\<And>x y. P x y \<Longrightarrow> f x = g y) \<Longrightarrow> map f xs = map g ys"
  by (induction rule: list_all2_induct) auto

lemma tracked_fds:
  assumes "list_all2 (serves s s') (fds s') ts"
  shows "map (map_option grpc_fd) (tracked s') = map (\<lambda>t. Some (fst t)) ts"
  unfolding tracked_def map_map
  using assms by (rule list_all2_map_eq) (simp add: serves_fd)

lemma tracked_refs:
  assumes "driver_inv s"
  shows "list_all (\<lambda>x. case x of None \<Rightarrow> False
            | Some n \<Rightarrow> refs n = 1 + of_bool (readable_registered n) + of_bool (writable_registered n))
          (tracked s)"
proof -
  have "case node_at s a of None \<Rightarrow> False
        | Some n \<Rightarrow> refs n = 1 + of_bool (readable_registered n) + of_bool (writable_registered n)"
    if "a \<in> set (fds s)" for a
    using driver_inv_live[OF assms that] by (auto simp: node_ok_def)
  then show ?thesis by (simp add: tracked_def list_all_iff)
qed

lemma serves_kept_flags:
  assumes "serves s s' a t" and "a \<in> set (fds s)"
  shows "\<exists>n n'. node_at s a = Some n \<and> node_at s' a = Some n' \<and> grpc_fd n' = grpc_fd n
           \<and> (readable_registered n \<longrightarrow> readable_registered n')
           \<and> (writable_registered n \<longrightarrow> writable_registered n')"
  using assms by (auto simp: serves_def registered_simps split: prod.splits option.splits)

lemma list_all2_left:
  "list_all2 P xs ys \<Longrightarrow> x \<in> set xs \<Longrightarrow> \<exists>y\<in>set ys. P x y"
  by (induction rule: list_all2_induct) auto

text \<open>
  C3, amended. After each pass of a sequence of passes, the nodes of the
  collection wrap the descriptors of the reported slots, one node for each slot
  and in reverse slot order. Each slot, in slot order, has taken the first node
  left in the old collection that wraps its descriptor, and a new node when none
  is left; so the first node of the old collection wrapping a reported descriptor
  is kept. A node kept from the old collection has the flags it had before the
  pass joined with the reported bits, so a registration taken in an earlier pass
  and not yet fired stays; a node created by the pass has the reported bits as
  flags; every reported direction is registered; and each node holds one
  reference plus one for each flag that is set.
\<close>

theorem passes_track_interest_set:
  assumes "driver_inv s"
  shows "\<exists>s1 s'. passes snaps s = Inr s1 \<and> passes (snaps @ [snap]) s = Inr s'
     \<and> driver_inv s'
     \<and> list_all2 (serves s1 s') (fds s') (rev (reported snap))
     \<and> map (map_option grpc_fd) (tracked s') = map (\<lambda>t. Some (fst t)) (rev (reported snap))
     \<and> list_all (\<lambda>x. case x of None \<Rightarrow> False
            | Some n \<Rightarrow> refs n = 1 + of_bool (readable_registered n) + of_bool (writable_registered n))
          (tracked s')
     \<and> snd (assign_slots (\<lambda>a. map_option grpc_fd (node_at s1 a)) (reported snap)
               (fds s1, length (nodes s1), [])) = (length (nodes s'), fds s')
     \<and> (\<forall>t\<in>set (reported snap).
           case find (\<lambda>a. map_option grpc_fd (node_at s1 a) = Some (fst t)) (fds s1) of
             None \<Rightarrow> True
           | Some a \<Rightarrow> a \<in> set (fds s'))
     \<and> (\<forall>a\<in>set (fds s'). a \<in> set (fds s1) \<longrightarrow>
           (\<exists>n n'. node_at s1 a = Some n \<and> node_at s' a = Some n' \<and> grpc_fd n' = grpc_fd n
              \<and> (readable_registered n \<longrightarrow> readable_registered n')
              \<and> (writable_registered n \<longrightarrow> writable_registered n')))"
proof -
  from passes_inv[OF assms, of snaps] obtain s1 where s1: "passes snaps s = Inr s1" "driver_inv s1"
    by blast
  from notify_post[OF s1(2), of snap]
  obtain s' where p: "grpc_ares_notify_on_event_locked snap s1 = Inr s'" "pass_post snap s1 s'"
    by blast
  then have i: "driver_inv s'" and sv: "list_all2 (serves s1 s') (fds s') (rev (reported snap))"
    by (simp_all add: pass_post_def)
  have ps: "passes (snaps @ [snap]) s = Inr s'" using s1 p by (simp add: passes_append)
  have kept: "\<forall>t\<in>set (reported snap).
           case find (\<lambda>a. map_option grpc_fd (node_at s1 a) = Some (fst t)) (fds s1) of
             None \<Rightarrow> True
           | Some a \<Rightarrow> a \<in> set (fds s')"
    using notify_keeps_first[OF s1(2) p(1)] by (auto split: option.splits)
  have flags: "\<forall>a\<in>set (fds s'). a \<in> set (fds s1) \<longrightarrow>
           (\<exists>n n'. node_at s1 a = Some n \<and> node_at s' a = Some n' \<and> grpc_fd n' = grpc_fd n
              \<and> (readable_registered n \<longrightarrow> readable_registered n')
              \<and> (writable_registered n \<longrightarrow> writable_registered n'))"
  proof (intro ballI impI)
    fix a assume a: "a \<in> set (fds s')" "a \<in> set (fds s1)"
    from list_all2_left[OF sv a(1)] obtain t where "serves s1 s' a t" by blast
    then show "\<exists>n n'. node_at s1 a = Some n \<and> node_at s' a = Some n' \<and> grpc_fd n' = grpc_fd n
              \<and> (readable_registered n \<longrightarrow> readable_registered n')
              \<and> (writable_registered n \<longrightarrow> writable_registered n')"
      using a(2) by (rule serves_kept_flags)
  qed
  show ?thesis
    by (intro exI[of _ s1] exI[of _ s'] conjI s1(1) ps i sv tracked_fds[OF sv] tracked_refs[OF i]
          notify_assign[OF s1(2) p(1)] kept flags)
qed

theorem passes_track_interest_set_witness:
  "driver_inv new_driver
   \<and> (\<exists>s'. passes [snap_5rw] new_driver = Inr one_passed
        \<and> passes ([snap_5rw] @ [snap_5w]) new_driver = Inr s'
        \<and> driver_inv s'
        \<and> reported snap_5w = [(5, False, True)]
        \<and> fds s' = [0]
        \<and> tracked s' =
            [Some \<lparr>refs = 3, grpc_fd = 5, readable_registered = True, writable_registered = True\<rparr>])"
proof -
  from passes_track_interest_set[OF driver_inv_new_driver, of "[snap_5rw]" snap_5w]
  obtain s' where p: "passes ([snap_5rw] @ [snap_5w]) new_driver = Inr s'"
    and i: "driver_inv s'"
    and sv: "list_all2 (serves one_passed s') (fds s') (rev (reported snap_5w))"
    and a: "snd (assign_slots (\<lambda>a. map_option grpc_fd (node_at one_passed a)) (reported snap_5w)
               (fds one_passed, length (nodes one_passed), [])) = (length (nodes s'), fds s')"
    unfolding one_passed_facts(1) by auto
  from a have f: "fds s' = [0]"
    by (simp add: reported_snap_5w one_passed_facts)
  from sv have "serves one_passed s' 0 (5, False, True)"
    by (simp add: reported_snap_5w f)
  then have "node_at s' 0 =
      Some \<lparr>refs = 3, grpc_fd = 5, readable_registered = True, writable_registered = True\<rparr>"
    by (simp add: serves_def one_passed_facts registered_def)
  with f have "tracked s' =
      [Some \<lparr>refs = 3, grpc_fd = 5, readable_registered = True, writable_registered = True\<rparr>]"
    by (simp add: tracked_def)
  with p i f one_passed_facts(1) reported_snap_5w driver_inv_new_driver show ?thesis by blast
qed

text \<open>
  C3 (fails on the code). The claim: after every pass the flags of a node equal the
  reported bits. Descriptor 5 is registered for reading and writing; the write
  fires and the engine reports descriptor 5 writable only. After the pass of the
  handler the node has its write registered again and its read registration still
  pending, with three references. Two passes on these two answers, with no firing
  between them, end in the same way.
\<close>

theorem flags_exceed_reported_bits:
  "grpc_ares_ev_driver_start snap_5rw new_driver = Inr one_tracked
   \<and> on_writable_cb 0 GRPC_ERROR_NONE snap_5w one_tracked = Inr write_refired
   \<and> tracked write_refired =
       [Some \<lparr>refs = 3, grpc_fd = 5, readable_registered = True, writable_registered = True\<rparr>]
   \<and> reported snap_5w = [(5, False, True)]
   \<and> map_sum id tracked (passes [snap_5rw, snap_5w] new_driver) =
       Inr [Some \<lparr>refs = 3, grpc_fd = 5, readable_registered = True, writable_registered = True\<rparr>]"
  unfolding write_refired_def one_tracked_def by code_simp

section \<open>The reference count invariant\<close>

lemma destroy_loop_result:
  "\<forall>a\<in>set xs. node_at s a \<noteq> None \<Longrightarrow>
   (if even (length xs) then \<exists>es. destroy_loop xs s = Inr (emit es s)
    else destroy_loop xs s = Inl Null_dereference)"
proof (induction xs s rule: destroy_loop.induct)
  case (1 s)
  have "s = emit [] s" by (simp add: emit_def)
  then show ?case by (auto intro: exI[of _ "[]"])
next
  case (2 fdn s)
  then show ?case by auto
next
  case (3 fdn nxt rest s)
  from "3.prems" obtain n m where nm: "node_at s fdn = Some n" "node_at s nxt = Some m" by auto
  have live: "\<forall>a\<in>set rest. node_at (emit [Fd_shutdown fdn] s) a \<noteq> None"
    using "3.prems" by (simp add: heap_simps)
  have e: "emit es (emit [Fd_shutdown fdn] s) = emit (Fd_shutdown fdn # es) s" for es
    by (simp add: emit_def)
  from "3.IH"[OF nm live] nm show ?case
    by (auto simp: e)
qed

lemma destroy_result:
  assumes "driver_inv s"
  shows "case grpc_ares_ev_driver_destroy s of
           Inr s' \<Rightarrow> driver_inv s' \<and> even (length (fds s))
         | Inl e \<Rightarrow> e = Null_dereference \<and> odd (length (fds s))"
proof -
  have live: "\<forall>a\<in>set (fds s). node_at (emit [Mu_lock Driver_mu] s) a \<noteq> None"
    using driver_inv_live[OF assms] by (fastforce simp: heap_simps)
  show ?thesis
  proof (cases "even (length (fds s))")
    case True
    with destroy_loop_result[OF live] obtain es
      where "destroy_loop (fds s) (emit [Mu_lock Driver_mu] s) = Inr (emit es (emit [Mu_lock Driver_mu] s))"
      by auto
    with True assms show ?thesis
      by (simp add: grpc_ares_ev_driver_destroy_def driver_inv_emit)
  next
    case False
    with destroy_loop_result[OF live] show ?thesis
      by (simp add: grpc_ares_ev_driver_destroy_def)
  qed
qed

lemma pass_released:
  assumes inv: "driver_inv s" and p: "pass_post snap s s'"
    and n: "node_at s a = Some n" and z: "node_at s' a = None"
  shows "a \<in> set (fds s) \<and> a \<notin> set (fds s') \<and> \<not> readable_registered n \<and> \<not> writable_registered n"
proof -
  have l: "a < length (nodes s)" using n by (rule node_at_less)
  from p have fr: "a \<notin> set (fds s) \<Longrightarrow> node_at s' a = node_at s a"
    and dr: "a \<in> set (fds s) \<Longrightarrow> a \<notin> set (fds s') \<Longrightarrow> node_at s' a = unreffed n"
    and i': "driver_inv s'"
    using l n by (auto simp: pass_post_def)
  from fr n z have a: "a \<in> set (fds s)" by auto
  from driver_inv_live[OF i', of a] z have a': "a \<notin> set (fds s')" by auto
  from dr[OF a a'] z have "refs n = 1" by (simp add: unreffed_def split: if_splits)
  with driver_inv_live[OF inv a] n a a' show ?thesis
    using node_ok_True_one[of n] by auto
qed

text \<open>
  C4. Every node of the collection holds one reference for its membership and one
  for each pending registration; every other node in memory holds one for each
  pending registration, and at least one. The driver that \<^verbatim>\<open>create()\<close> returns
  satisfies this, and \<^verbatim>\<open>start()\<close>, a reconciliation pass and the two completion
  handlers (fired on a node whose registration is pending) run to their end
  without a failed assertion and keep it; so does \<^verbatim>\<open>destroy()\<close> whenever it
  returns, which is when the collection has an even number of nodes. A node that
  a pass releases was unlinked by the pass and had no registration pending.
\<close>

theorem reference_count_invariant:
  assumes "driver_inv s"
  shows "(\<forall>d. fst (snd (grpc_ares_ev_driver_create ares_strerror r status lib)) = Driver d \<longrightarrow> driver_inv d)
     \<and> (\<exists>s'. grpc_ares_ev_driver_start snap s = Inr s' \<and> driver_inv s')
     \<and> (\<exists>s'. grpc_ares_notify_on_event_locked snap s = Inr s' \<and> driver_inv s'
           \<and> (\<forall>b m. node_at s b = Some m \<longrightarrow> node_at s' b = None \<longrightarrow>
                 b \<in> set (fds s) \<and> b \<notin> set (fds s')
                 \<and> \<not> readable_registered m \<and> \<not> writable_registered m))
     \<and> (\<forall>n. node_at s a = Some n \<and> readable_registered n \<longrightarrow>
           (\<exists>s'. on_readable_cb a err snap s = Inr s' \<and> driver_inv s'))
     \<and> (\<forall>n. node_at s a = Some n \<and> writable_registered n \<longrightarrow>
           (\<exists>s'. on_writable_cb a err snap s = Inr s' \<and> driver_inv s'))
     \<and> (case grpc_ares_ev_driver_destroy s of
           Inr s' \<Rightarrow> driver_inv s' \<and> even (length (fds s))
         | Inl e \<Rightarrow> e = Null_dereference \<and> odd (length (fds s)))"
proof (intro conjI)
  show "\<forall>d. fst (snd (grpc_ares_ev_driver_create ares_strerror r status lib)) = Driver d \<longrightarrow> driver_inv d"
    by (auto simp: grpc_ares_ev_driver_create_def grpc_ares_init_def driver_inv_def cells_ok_def
             split: if_splits)
  from start_post[OF assms, of snap]
  show "\<exists>s'. grpc_ares_ev_driver_start snap s = Inr s' \<and> driver_inv s'"
    using assms by (auto simp: driver_inv_emit pass_post_def split: if_splits)
  from notify_post[OF assms, of snap]
  obtain s' where p: "grpc_ares_notify_on_event_locked snap s = Inr s'" "pass_post snap s s'"
    by blast
  then have "driver_inv s'" by (simp add: pass_post_def)
  with p pass_released[OF assms p(2)]
  show "\<exists>s'. grpc_ares_notify_on_event_locked snap s = Inr s' \<and> driver_inv s'
           \<and> (\<forall>b m. node_at s b = Some m \<longrightarrow> node_at s' b = None \<longrightarrow>
                 b \<in> set (fds s) \<and> b \<notin> set (fds s')
                 \<and> \<not> readable_registered m \<and> \<not> writable_registered m)"
    by blast
  show "\<forall>n. node_at s a = Some n \<and> readable_registered n \<longrightarrow>
           (\<exists>s'. on_readable_cb a err snap s = Inr s' \<and> driver_inv s')"
  proof (intro allI impI)
    fix n assume "node_at s a = Some n \<and> readable_registered n"
    then have n: "node_at s a = Some n" "readable_registered n" by simp_all
    from on_readable_cb_post[OF assms n, of err snap]
    show "\<exists>s'. on_readable_cb a err snap s = Inr s' \<and> driver_inv s'"
      by (auto simp: driver_inv_emit pass_post_def)
  qed
  show "\<forall>n. node_at s a = Some n \<and> writable_registered n \<longrightarrow>
           (\<exists>s'. on_writable_cb a err snap s = Inr s' \<and> driver_inv s')"
  proof (intro allI impI)
    fix n assume "node_at s a = Some n \<and> writable_registered n"
    then have n: "node_at s a = Some n" "writable_registered n" by simp_all
    from on_writable_cb_post[OF assms n, of err snap]
    show "\<exists>s'. on_writable_cb a err snap s = Inr s' \<and> driver_inv s'"
      by (auto simp: driver_inv_emit pass_post_def)
  qed
  show "case grpc_ares_ev_driver_destroy s of
           Inr s' \<Rightarrow> driver_inv s' \<and> even (length (fds s))
         | Inl e \<Rightarrow> e = Null_dereference \<and> odd (length (fds s))"
    using assms by (rule destroy_result)
qed

theorem reference_count_invariant_witness:
  "driver_inv one_tracked
   \<and> driver_inv new_driver
   \<and> (\<exists>s'. grpc_ares_ev_driver_start snap_5r one_tracked = Inr s' \<and> driver_inv s')
   \<and> (\<exists>s'. grpc_ares_notify_on_event_locked snap_5r one_tracked = Inr s' \<and> driver_inv s')
   \<and> (\<exists>s'. on_readable_cb 0 GRPC_ERROR_NONE snap_5r one_tracked = Inr s' \<and> driver_inv s')
   \<and> (\<exists>s'. on_writable_cb 0 GRPC_ERROR_NONE snap_5r one_tracked = Inr s' \<and> driver_inv s')
   \<and> grpc_ares_ev_driver_destroy one_tracked = Inl Null_dereference"
proof -
  have c: "fst (snd (grpc_ares_ev_driver_create (\<lambda>i. []) GRPC_ERROR_NONE 0 0)) = Driver new_driver"
    by (simp add: grpc_ares_ev_driver_create_def grpc_ares_init_def ARES_SUCCESS_def new_driver_def)
  note t = reference_count_invariant[OF one_tracked_facts(1), of "\<lambda>i. []" GRPC_ERROR_NONE 0 0 snap_5r 0 GRPC_ERROR_NONE]
  from t c have 1: "driver_inv new_driver" by blast
  from t have 2: "\<exists>s'. grpc_ares_ev_driver_start snap_5r one_tracked = Inr s' \<and> driver_inv s'"
    and 3: "\<exists>s'. grpc_ares_notify_on_event_locked snap_5r one_tracked = Inr s' \<and> driver_inv s'"
    by blast+
  from t one_tracked_facts(2)
  have 4: "\<exists>s'. on_readable_cb 0 GRPC_ERROR_NONE snap_5r one_tracked = Inr s' \<and> driver_inv s'"
    and 5: "\<exists>s'. on_writable_cb 0 GRPC_ERROR_NONE snap_5r one_tracked = Inr s' \<and> driver_inv s'"
    by simp_all
  from t have "case grpc_ares_ev_driver_destroy one_tracked of
           Inr s' \<Rightarrow> driver_inv s' \<and> even (length (fds one_tracked))
         | Inl e \<Rightarrow> e = Null_dereference \<and> odd (length (fds one_tracked))" by blast
  then have 6: "grpc_ares_ev_driver_destroy one_tracked = Inl Null_dereference"
    by (simp add: one_tracked_facts(3) split: sum.splits)
  from one_tracked_facts(1) 1 2 3 4 5 6 show ?thesis by blast
qed

section \<open>Descriptors the engine no longer reports\<close>

lemma serves_old_fd:
  "serves s s' a t \<Longrightarrow> a \<in> set (fds s) \<Longrightarrow> node_at s a = Some n \<Longrightarrow> grpc_fd n = fst t"
  by (auto simp: serves_def split: prod.splits)

lemma pass_drops_unreported:
  assumes inv: "driver_inv s" and p: "pass_post snap s s'"
    and a: "a \<in> set (fds s)" and n: "node_at s a = Some n"
    and nr: "grpc_fd n \<notin> fst ` set (reported snap)"
  shows "a \<notin> set (fds s')"
proof
  assume "a \<in> set (fds s')"
  moreover from p have "list_all2 (serves s s') (fds s') (rev (reported snap))"
    by (simp add: pass_post_def)
  ultimately obtain i where i: "i < length (fds s')" "fds s' ! i = a"
    and l: "length (fds s') = length (rev (reported snap))"
    and sv: "serves s s' (fds s' ! i) (rev (reported snap) ! i)"
    unfolding list_all2_conv_all_nth in_set_conv_nth by blast
  define t where "t = rev (reported snap) ! i"
  have "t \<in> set (rev (reported snap))" unfolding t_def using i l by (simp del: set_rev)
  then have "t \<in> set (reported snap)" by simp
  moreover have "serves s s' a t" using sv i by (simp add: t_def)
  ultimately have ts: "t \<in> set (reported snap)" and st: "serves s s' a t" .
  have "grpc_fd n = fst t" using st a n by (rule serves_old_fd)
  with ts have "grpc_fd n \<in> fst ` set (reported snap)" by simp
  with nr show False by simp
qed

lemma node_ok_refs_one:
  "node_ok True n \<Longrightarrow> (refs n = 1) = (\<not> (readable_registered n \<or> writable_registered n))"
  "node_ok False n \<Longrightarrow> readable_registered n \<Longrightarrow> (refs n = 1) = (\<not> writable_registered n)"
  "node_ok False n \<Longrightarrow> writable_registered n \<Longrightarrow> (refs n = 1) = (\<not> readable_registered n)"
  by (cases "readable_registered n"; cases "writable_registered n"; simp add: node_ok_def)+

text \<open>
  C5. A node of the collection whose descriptor the engine no longer reports is
  unlinked and shut down by the pass, and loses the reference of the list. With a
  registration pending it stays in memory, holding one reference for each pending
  registration; with none it is released in the pass. When a registration of an
  unlinked node fires, the node stays in memory if the other registration is still
  pending and is released in that firing otherwise.
\<close>

theorem dropped_descriptor_lifetime:
  assumes "driver_inv s"
  shows "(\<forall>n. a \<in> set (fds s) \<and> node_at s a = Some n \<and> grpc_fd n \<notin> fst ` set (reported snap) \<longrightarrow>
            (\<exists>s'. grpc_ares_notify_on_event_locked snap s = Inr s' \<and> a \<notin> set (fds s')
               \<and> Fd_shutdown a \<in> set (events_since s s')
               \<and> refs n - 1 = of_bool (readable_registered n) + of_bool (writable_registered n)
               \<and> node_at s' a = (if readable_registered n \<or> writable_registered n
                                 then Some (n\<lparr>refs := refs n - 1\<rparr>) else None)
               \<and> (node_at s' a = None \<longrightarrow> set (release_events a) \<subseteq> set (events_since s s'))))
     \<and> (\<forall>n. a \<notin> set (fds s) \<and> node_at s a = Some n \<and> readable_registered n \<longrightarrow>
            (\<exists>s'. on_readable_cb a err snap s = Inr s'
               \<and> node_at s' a = (if writable_registered n
                                 then Some (n\<lparr>readable_registered := False, refs := refs n - 1\<rparr>)
                                 else None)
               \<and> (node_at s' a = None \<longrightarrow> set (release_events a) \<subseteq> set (events_since s s'))))
     \<and> (\<forall>n. a \<notin> set (fds s) \<and> node_at s a = Some n \<and> writable_registered n \<longrightarrow>
            (\<exists>s'. on_writable_cb a err snap s = Inr s'
               \<and> node_at s' a = (if readable_registered n
                                 then Some (n\<lparr>writable_registered := False, refs := refs n - 1\<rparr>)
                                 else None)
               \<and> (node_at s' a = None \<longrightarrow> set (release_events a) \<subseteq> set (events_since s s'))))"
proof (intro conjI allI impI)
  fix n
  assume "a \<in> set (fds s) \<and> node_at s a = Some n \<and> grpc_fd n \<notin> fst ` set (reported snap)"
  then have a: "a \<in> set (fds s)" and n: "node_at s a = Some n"
    and nr: "grpc_fd n \<notin> fst ` set (reported snap)" by simp_all
  from notify_post[OF assms, of snap]
  obtain s' where r: "grpc_ares_notify_on_event_locked snap s = Inr s'" and p: "pass_post snap s s'"
    by blast
  have d: "a \<notin> set (fds s')" using assms p a n nr by (rule pass_drops_unreported)
  from driver_inv_live[OF assms a] n have ok: "node_ok True n" by simp
  from p a d n obtain es where na: "node_at s' a = unreffed n" and t: "trace s' = trace s @ es"
    and sh: "Fd_shutdown a \<in> set es" and rl: "node_at s' a = None \<longrightarrow> set (release_events a) \<subseteq> set es"
    unfolding pass_post_def by force
  have "refs n - 1 = of_bool (readable_registered n) + of_bool (writable_registered n)"
    using ok by (simp add: node_ok_def)
  moreover have "node_at s' a = (if readable_registered n \<or> writable_registered n
                                 then Some (n\<lparr>refs := refs n - 1\<rparr>) else None)"
    using na node_ok_refs_one(1)[OF ok] by (simp add: unreffed_def)
  ultimately show "\<exists>s'. grpc_ares_notify_on_event_locked snap s = Inr s' \<and> a \<notin> set (fds s')
               \<and> Fd_shutdown a \<in> set (events_since s s')
               \<and> refs n - 1 = of_bool (readable_registered n) + of_bool (writable_registered n)
               \<and> node_at s' a = (if readable_registered n \<or> writable_registered n
                                 then Some (n\<lparr>refs := refs n - 1\<rparr>) else None)
               \<and> (node_at s' a = None \<longrightarrow> set (release_events a) \<subseteq> set (events_since s s'))"
    using r d sh rl events_since_append[OF t] by auto
next
  fix n
  assume "a \<notin> set (fds s) \<and> node_at s a = Some n \<and> readable_registered n"
  then have a: "a \<notin> set (fds s)" and n: "node_at s a = Some n" and rr: "readable_registered n"
    by simp_all
  from driver_inv_unlinked[OF assms n a] have ok: "node_ok False n" .
  from on_readable_cb_post[OF assms n rr, of err snap]
  obtain s1 s2 where s1: "node_at s1 = (node_at s)(a := unreffed (n\<lparr>readable_registered := False\<rparr>))"
     "fds s1 = fds s" "length (nodes s1) = length (nodes s)"
     "trace s1 = trace s @ read_fired a n err @ (if refs n = 1 then release_events a else [])
                    @ [Mu_lock Driver_mu]"
    and p: "pass_post snap s1 s2"
    and r: "on_readable_cb a err snap s = Inr (emit [Mu_unlock Driver_mu] s2)"
    by blast
  from p obtain es where t2: "trace s2 = trace s1 @ es"
    and fr: "\<forall>b. b < length (nodes s1) \<longrightarrow> b \<notin> set (fds s1) \<longrightarrow> node_at s2 b = node_at s1 b"
    unfolding pass_post_def by blast
  let ?s' = "emit [Mu_unlock Driver_mu] s2"
  have "node_at ?s' a = unreffed (n\<lparr>readable_registered := False\<rparr>)"
    using fr s1 a node_at_less[OF n] by (simp add: heap_simps)
  then have na: "node_at ?s' a = (if writable_registered n
                                 then Some (n\<lparr>readable_registered := False, refs := refs n - 1\<rparr>)
                                 else None)"
    using node_ok_refs_one(2)[OF ok rr] by (simp add: unreffed_def)
  have "trace ?s' = trace s @ (read_fired a n err @ (if refs n = 1 then release_events a else [])
                    @ [Mu_lock Driver_mu] @ es @ [Mu_unlock Driver_mu])"
    using t2 s1 by (simp add: heap_simps)
  from events_since_append[OF this]
  have "node_at ?s' a = None \<longrightarrow> set (release_events a) \<subseteq> set (events_since s ?s')"
    using na node_ok_refs_one(2)[OF ok rr] by (auto split: if_splits)
  with r na show "\<exists>s'. on_readable_cb a err snap s = Inr s'
               \<and> node_at s' a = (if writable_registered n
                                 then Some (n\<lparr>readable_registered := False, refs := refs n - 1\<rparr>)
                                 else None)
               \<and> (node_at s' a = None \<longrightarrow> set (release_events a) \<subseteq> set (events_since s s'))"
    by (intro exI[of _ ?s'] conjI)
next
  fix n
  assume "a \<notin> set (fds s) \<and> node_at s a = Some n \<and> writable_registered n"
  then have a: "a \<notin> set (fds s)" and n: "node_at s a = Some n" and wr: "writable_registered n"
    by simp_all
  from driver_inv_unlinked[OF assms n a] have ok: "node_ok False n" .
  from on_writable_cb_post[OF assms n wr, of err snap]
  obtain s1 s2 where s1: "node_at s1 = (node_at s)(a := unreffed (n\<lparr>writable_registered := False\<rparr>))"
     "fds s1 = fds s" "length (nodes s1) = length (nodes s)"
     "trace s1 = trace s @ write_fired a n err @ (if refs n = 1 then release_events a else [])
                    @ [Mu_lock Driver_mu]"
    and p: "pass_post snap s1 s2"
    and r: "on_writable_cb a err snap s = Inr (emit [Mu_unlock Driver_mu] s2)"
    by blast
  from p obtain es where t2: "trace s2 = trace s1 @ es"
    and fr: "\<forall>b. b < length (nodes s1) \<longrightarrow> b \<notin> set (fds s1) \<longrightarrow> node_at s2 b = node_at s1 b"
    unfolding pass_post_def by blast
  let ?s' = "emit [Mu_unlock Driver_mu] s2"
  have "node_at ?s' a = unreffed (n\<lparr>writable_registered := False\<rparr>)"
    using fr s1 a node_at_less[OF n] by (simp add: heap_simps)
  then have na: "node_at ?s' a = (if readable_registered n
                                 then Some (n\<lparr>writable_registered := False, refs := refs n - 1\<rparr>)
                                 else None)"
    using node_ok_refs_one(3)[OF ok wr] by (simp add: unreffed_def)
  have "trace ?s' = trace s @ (write_fired a n err @ (if refs n = 1 then release_events a else [])
                    @ [Mu_lock Driver_mu] @ es @ [Mu_unlock Driver_mu])"
    using t2 s1 by (simp add: heap_simps)
  from events_since_append[OF this]
  have "node_at ?s' a = None \<longrightarrow> set (release_events a) \<subseteq> set (events_since s ?s')"
    using na node_ok_refs_one(3)[OF ok wr] by (auto split: if_splits)
  with r na show "\<exists>s'. on_writable_cb a err snap s = Inr s'
               \<and> node_at s' a = (if readable_registered n
                                 then Some (n\<lparr>writable_registered := False, refs := refs n - 1\<rparr>)
                                 else None)
               \<and> (node_at s' a = None \<longrightarrow> set (release_events a) \<subseteq> set (events_since s s'))"
    by (intro exI[of _ ?s'] conjI)
qed

theorem dropped_descriptor_lifetime_witness:
  "driver_inv one_tracked \<and> driver_inv read_pending_unlinked \<and> driver_inv one_unlinked
   \<and> (\<exists>s'. grpc_ares_notify_on_event_locked snap_none one_tracked = Inr s'
         \<and> 0 \<notin> set (fds s') \<and> Fd_shutdown 0 \<in> set (events_since one_tracked s')
         \<and> node_at s' 0 = Some \<lparr>refs = 2, grpc_fd = 5, readable_registered = True, writable_registered = True\<rparr>)
   \<and> (\<exists>s'. on_readable_cb 0 GRPC_ERROR_NONE snap_none read_pending_unlinked = Inr s'
         \<and> node_at s' 0 = None \<and> Gpr_free 0 \<in> set (events_since read_pending_unlinked s'))
   \<and> (\<exists>s'. on_writable_cb 0 (GRPC_ERROR_CREATE ''shutdown'') snap_none one_unlinked = Inr s'
         \<and> node_at s' 0 = None \<and> Gpr_free 0 \<in> set (events_since one_unlinked s'))"
proof -
  from dropped_descriptor_lifetime[OF one_tracked_facts(1), where a = 0 and snap = snap_none]
  have 1: "\<exists>s'. grpc_ares_notify_on_event_locked snap_none one_tracked = Inr s'
         \<and> 0 \<notin> set (fds s') \<and> Fd_shutdown 0 \<in> set (events_since one_tracked s')
         \<and> node_at s' 0 = Some \<lparr>refs = 2, grpc_fd = 5, readable_registered = True, writable_registered = True\<rparr>"
    using one_tracked_facts by (simp add: reported_snap_none) (auto simp: subset_iff)
  from dropped_descriptor_lifetime[OF read_pending_unlinked_facts(1), where a = 0 and err = GRPC_ERROR_NONE and snap = snap_none]
  have 2: "\<exists>s'. on_readable_cb 0 GRPC_ERROR_NONE snap_none read_pending_unlinked = Inr s'
         \<and> node_at s' 0 = None \<and> Gpr_free 0 \<in> set (events_since read_pending_unlinked s')"
    using read_pending_unlinked_facts by (auto simp: release_events_def)
  from dropped_descriptor_lifetime[OF one_unlinked_facts(1), where a = 0 and err = "GRPC_ERROR_CREATE ''shutdown''" and snap = snap_none]
  have 3: "\<exists>s'. on_writable_cb 0 (GRPC_ERROR_CREATE ''shutdown'') snap_none one_unlinked = Inr s'
         \<and> node_at s' 0 = None \<and> Gpr_free 0 \<in> set (events_since one_unlinked s')"
    using one_unlinked_facts by (auto simp: release_events_def)
  from 1 2 3 one_tracked_facts(1) read_pending_unlinked_facts(1) one_unlinked_facts(1)
  show ?thesis by blast
qed

section \<open>The completion handlers\<close>

text \<open>
  C6. A completion handler fired on a node whose registration is pending: takes the
  lock of the node, clears the flag of its direction and releases the lock; calls
  \<^verbatim>\<open>ares_process_fd\<close> with the descriptor of the node in the direction that fired
  and \<^verbatim>\<open>ARES_SOCKET_BAD\<close> in the other when there is no error, and \<^verbatim>\<open>ares_cancel\<close>
  otherwise; releases one reference of the node, which frees the node when it was
  the last; then runs a reconciliation pass between taking and releasing the lock
  of the driver.
\<close>

theorem completion_handler_steps:
  assumes "driver_inv s" and "node_at s a = Some n"
  shows "(readable_registered n \<longrightarrow>
           (\<exists>s1 s2. fd_node_unref a
                 (emit [Mu_lock (Node_mu a), Store_readable_registered a False, Mu_unlock (Node_mu a),
                        if err = GRPC_ERROR_NONE then Ares_process_fd (grpc_fd n) ARES_SOCKET_BAD
                        else Ares_cancel]
                    (put_node a (n\<lparr>readable_registered := False\<rparr>) s)) = Inr s1
              \<and> node_at s1 a = (if refs n = 1 then None
                                else Some (n\<lparr>readable_registered := False, refs := refs n - 1\<rparr>))
              \<and> (\<forall>b. b \<noteq> a \<longrightarrow> node_at s1 b = node_at s b)
              \<and> fds s1 = fds s \<and> working s1 = working s
              \<and> events_since s s1 =
                  [Mu_lock (Node_mu a), Store_readable_registered a False, Mu_unlock (Node_mu a),
                   if err = GRPC_ERROR_NONE then Ares_process_fd (grpc_fd n) ARES_SOCKET_BAD
                   else Ares_cancel]
                  @ (if refs n = 1 then release_events a else [])
              \<and> grpc_ares_notify_on_event_locked snap (emit [Mu_lock Driver_mu] s1) = Inr s2
              \<and> on_readable_cb a err snap s = Inr (emit [Mu_unlock Driver_mu] s2)))
     \<and> (writable_registered n \<longrightarrow>
           (\<exists>s1 s2. fd_node_unref a
                 (emit [Mu_lock (Node_mu a), Store_writable_registered a False, Mu_unlock (Node_mu a),
                        if err = GRPC_ERROR_NONE then Ares_process_fd ARES_SOCKET_BAD (grpc_fd n)
                        else Ares_cancel]
                    (put_node a (n\<lparr>writable_registered := False\<rparr>) s)) = Inr s1
              \<and> node_at s1 a = (if refs n = 1 then None
                                else Some (n\<lparr>writable_registered := False, refs := refs n - 1\<rparr>))
              \<and> (\<forall>b. b \<noteq> a \<longrightarrow> node_at s1 b = node_at s b)
              \<and> fds s1 = fds s \<and> working s1 = working s
              \<and> events_since s s1 =
                  [Mu_lock (Node_mu a), Store_writable_registered a False, Mu_unlock (Node_mu a),
                   if err = GRPC_ERROR_NONE then Ares_process_fd ARES_SOCKET_BAD (grpc_fd n)
                   else Ares_cancel]
                  @ (if refs n = 1 then release_events a else [])
              \<and> grpc_ares_notify_on_event_locked snap (emit [Mu_lock Driver_mu] s1) = Inr s2
              \<and> on_writable_cb a err snap s = Inr (emit [Mu_unlock Driver_mu] s2)))"
proof (intro conjI impI)
  assume r: "readable_registered n"
  let ?n' = "n\<lparr>readable_registered := False\<rparr>"
  let ?es = "[Mu_lock (Node_mu a), Store_readable_registered a False, Mu_unlock (Node_mu a),
                        if err = GRPC_ERROR_NONE then Ares_process_fd (grpc_fd n) ARES_SOCKET_BAD
                        else Ares_cancel]"
  note ok = driver_inv_node[OF assms]
  from fired_inv[OF assms, of ?n' ?es] node_ok_fired_read[OF ok r]
  obtain s1 where u: "fd_node_unref a (emit ?es (put_node a ?n' s)) = Inr s1"
    and na: "node_at s1 = (node_at s)(a := unreffed ?n')" and f: "fds s1 = fds s" "working s1 = working s"
    and t: "trace s1 = trace s @ ?es @ (if refs n = 1 then release_events a else [])"
    and i: "driver_inv s1"
    by auto
  have i': "driver_inv (emit [Mu_lock Driver_mu] s1)" using i by (simp add: driver_inv_emit)
  from notify_post[OF i', of snap]
  obtain s2 where p: "grpc_ares_notify_on_event_locked snap (emit [Mu_lock Driver_mu] s1) = Inr s2"
    by blast
  have c1: "node_at s1 a = (if refs n = 1 then None
                                else Some (n\<lparr>readable_registered := False, refs := refs n - 1\<rparr>))"
    using na by (simp add: unreffed_def)
  have c2: "\<forall>b. b \<noteq> a \<longrightarrow> node_at s1 b = node_at s b" using na by simp
  have c3: "events_since s s1 = ?es @ (if refs n = 1 then release_events a else [])"
    using t by (rule events_since_append)
  have c4: "on_readable_cb a err snap s = Inr (emit [Mu_unlock Driver_mu] s2)"
    using assms(2) u p unfolding on_readable_cb_def by simp
  show "\<exists>s1 s2. fd_node_unref a (emit ?es (put_node a ?n' s)) = Inr s1
              \<and> node_at s1 a = (if refs n = 1 then None
                                else Some (n\<lparr>readable_registered := False, refs := refs n - 1\<rparr>))
              \<and> (\<forall>b. b \<noteq> a \<longrightarrow> node_at s1 b = node_at s b)
              \<and> fds s1 = fds s \<and> working s1 = working s
              \<and> events_since s s1 = ?es @ (if refs n = 1 then release_events a else [])
              \<and> grpc_ares_notify_on_event_locked snap (emit [Mu_lock Driver_mu] s1) = Inr s2
              \<and> on_readable_cb a err snap s = Inr (emit [Mu_unlock Driver_mu] s2)"
    by (intro exI[of _ s1] exI[of _ s2] conjI u c1 c2 f c3 p c4)
next
  assume r: "writable_registered n"
  let ?n' = "n\<lparr>writable_registered := False\<rparr>"
  let ?es = "[Mu_lock (Node_mu a), Store_writable_registered a False, Mu_unlock (Node_mu a),
                        if err = GRPC_ERROR_NONE then Ares_process_fd ARES_SOCKET_BAD (grpc_fd n)
                        else Ares_cancel]"
  note ok = driver_inv_node[OF assms]
  from fired_inv[OF assms, of ?n' ?es] node_ok_fired_write[OF ok r]
  obtain s1 where u: "fd_node_unref a (emit ?es (put_node a ?n' s)) = Inr s1"
    and na: "node_at s1 = (node_at s)(a := unreffed ?n')" and f: "fds s1 = fds s" "working s1 = working s"
    and t: "trace s1 = trace s @ ?es @ (if refs n = 1 then release_events a else [])"
    and i: "driver_inv s1"
    by auto
  have i': "driver_inv (emit [Mu_lock Driver_mu] s1)" using i by (simp add: driver_inv_emit)
  from notify_post[OF i', of snap]
  obtain s2 where p: "grpc_ares_notify_on_event_locked snap (emit [Mu_lock Driver_mu] s1) = Inr s2"
    by blast
  have c1: "node_at s1 a = (if refs n = 1 then None
                                else Some (n\<lparr>writable_registered := False, refs := refs n - 1\<rparr>))"
    using na by (simp add: unreffed_def)
  have c2: "\<forall>b. b \<noteq> a \<longrightarrow> node_at s1 b = node_at s b" using na by simp
  have c3: "events_since s s1 = ?es @ (if refs n = 1 then release_events a else [])"
    using t by (rule events_since_append)
  have c4: "on_writable_cb a err snap s = Inr (emit [Mu_unlock Driver_mu] s2)"
    using assms(2) u p unfolding on_writable_cb_def by simp
  show "\<exists>s1 s2. fd_node_unref a (emit ?es (put_node a ?n' s)) = Inr s1
              \<and> node_at s1 a = (if refs n = 1 then None
                                else Some (n\<lparr>writable_registered := False, refs := refs n - 1\<rparr>))
              \<and> (\<forall>b. b \<noteq> a \<longrightarrow> node_at s1 b = node_at s b)
              \<and> fds s1 = fds s \<and> working s1 = working s
              \<and> events_since s s1 = ?es @ (if refs n = 1 then release_events a else [])
              \<and> grpc_ares_notify_on_event_locked snap (emit [Mu_lock Driver_mu] s1) = Inr s2
              \<and> on_writable_cb a err snap s = Inr (emit [Mu_unlock Driver_mu] s2)"
    by (intro exI[of _ s1] exI[of _ s2] conjI u c1 c2 f c3 p c4)
qed

theorem completion_handler_steps_witness:
  "driver_inv one_tracked
   \<and> node_at one_tracked 0 =
       Some \<lparr>refs = 3, grpc_fd = 5, readable_registered = True, writable_registered = True\<rparr>
   \<and> (\<exists>s1 s2. events_since one_tracked s1 =
                  [Mu_lock (Node_mu 0), Store_readable_registered 0 False, Mu_unlock (Node_mu 0),
                   Ares_process_fd 5 ARES_SOCKET_BAD]
              \<and> grpc_ares_notify_on_event_locked snap_none (emit [Mu_lock Driver_mu] s1) = Inr s2
              \<and> on_readable_cb 0 GRPC_ERROR_NONE snap_none one_tracked = Inr (emit [Mu_unlock Driver_mu] s2))
   \<and> (\<exists>s1 s2. events_since one_tracked s1 =
                  [Mu_lock (Node_mu 0), Store_writable_registered 0 False, Mu_unlock (Node_mu 0),
                   Ares_cancel]
              \<and> grpc_ares_notify_on_event_locked snap_none (emit [Mu_lock Driver_mu] s1) = Inr s2
              \<and> on_writable_cb 0 (GRPC_ERROR_CREATE ''shutdown'') snap_none one_tracked
                   = Inr (emit [Mu_unlock Driver_mu] s2))"
proof -
  from completion_handler_steps[OF one_tracked_facts(1,2), of GRPC_ERROR_NONE snap_none]
  have 1: "\<exists>s1 s2. events_since one_tracked s1 =
                  [Mu_lock (Node_mu 0), Store_readable_registered 0 False, Mu_unlock (Node_mu 0),
                   Ares_process_fd 5 ARES_SOCKET_BAD]
              \<and> grpc_ares_notify_on_event_locked snap_none (emit [Mu_lock Driver_mu] s1) = Inr s2
              \<and> on_readable_cb 0 GRPC_ERROR_NONE snap_none one_tracked = Inr (emit [Mu_unlock Driver_mu] s2)"
    by simp blast
  from completion_handler_steps[OF one_tracked_facts(1,2), of "GRPC_ERROR_CREATE ''shutdown''" snap_none]
  have 2: "\<exists>s1 s2. events_since one_tracked s1 =
                  [Mu_lock (Node_mu 0), Store_writable_registered 0 False, Mu_unlock (Node_mu 0),
                   Ares_cancel]
              \<and> grpc_ares_notify_on_event_locked snap_none (emit [Mu_lock Driver_mu] s1) = Inr s2
              \<and> on_writable_cb 0 (GRPC_ERROR_CREATE ''shutdown'') snap_none one_tracked
                   = Inr (emit [Mu_unlock Driver_mu] s2)"
    by simp blast
  from 1 2 one_tracked_facts(1,2) show ?thesis by blast
qed

section \<open>Starting, and the flag \<open>working\<close>\<close>

lemma slots_loop_idle: "reported_on snap is = [] \<Longrightarrow> slots_loop snap is sl = Inr sl"
proof (induction "is")
  case Nil
  then show ?case by simp
next
  case (Cons i "is")
  then have "\<not> ARES_GETSOCK_READABLE (socks_bitmask snap) i"
    "\<not> ARES_GETSOCK_WRITABLE (socks_bitmask snap) i" "reported_on snap is = []"
    by (auto simp: reported_on_def split: if_splits)
  with Cons.IH show ?case by (cases sl) (simp add: slot_body_inactive)
qed

lemma notify_idle:
  assumes "reported snap = []" and "fds s = []"
  shows "grpc_ares_notify_on_event_locked snap s =
           Inr ((emit [Ares_getsock] s)\<lparr>fds := [], working := False\<rparr>)"
  using assms slots_loop_idle[of snap "[0..<ARES_GETSOCK_MAXNUM]"]
  by (simp add: grpc_ares_notify_on_event_locked_def reported_def heap_simps)

lemma pass_post_empty:
  assumes "pass_post snap s s'"
  shows "(fds s' = []) = (reported snap = [])"
proof -
  from assms have "length (fds s') = length (rev (reported snap))"
    unfolding pass_post_def by (blast dest: list_all2_lengthD)
  then show ?thesis by auto
qed

lemma pass_event_same:
  "node_at s' = node_at s \<Longrightarrow> nodes s' = nodes s \<Longrightarrow> fds s' = fds s \<Longrightarrow> pass_event s' e = pass_event s e"
  by (cases e) (simp_all split: option.splits)

lemma second_start:
  assumes "fds s1 = []" and "\<not> working s1" and "reported snap = []"
  shows "grpc_ares_ev_driver_start snap s1 =
           Inr (emit [Mu_lock Driver_mu, Ares_getsock, Mu_unlock Driver_mu] s1)"
proof -
  have "fds (emit [Mu_lock Driver_mu] (s1\<lparr>working := True\<rparr>)) = []"
    using assms(1) by (simp add: heap_simps)
  from notify_idle[OF assms(3) this] assms(1,2) show ?thesis
    by (cases s1) (simp add: grpc_ares_ev_driver_start_def emit_def)
qed

text \<open>
  C7. \<^verbatim>\<open>start()\<close> on a driver that is working only takes and releases the lock. On a
  driver that is not working it sets \<open>working\<close> and runs one reconciliation pass
  under the lock. A second \<^verbatim>\<open>start()\<close> on the same answer of the engine leaves the
  memory, the collection and \<open>working\<close> as they are: it adds to the trace the lock
  and unlock of the driver, and between them one \<^verbatim>\<open>ares_getsock\<close> when the driver is
  not working, and no registration. The first takes no registration for a
  direction whose flag was set.
\<close>

theorem start_idempotent:
  assumes "driver_inv s"
  shows "\<exists>s1. grpc_ares_ev_driver_start snap s = Inr s1
     \<and> (if working s then s1 = emit [Mu_lock Driver_mu, Mu_unlock Driver_mu] s
        else \<exists>s2. grpc_ares_notify_on_event_locked snap
                     (emit [Mu_lock Driver_mu] (s\<lparr>working := True\<rparr>)) = Inr s2
                \<and> s1 = emit [Mu_unlock Driver_mu] s2)
     \<and> grpc_ares_ev_driver_start snap s1 =
         Inr (emit (if working s1 then [Mu_lock Driver_mu, Mu_unlock Driver_mu]
                    else [Mu_lock Driver_mu, Ares_getsock, Mu_unlock Driver_mu]) s1)
     \<and> (\<forall>b m. node_at s b = Some m \<and> readable_registered m \<longrightarrow>
            Fd_notify_on_read b \<notin> set (events_since s s1))
     \<and> (\<forall>b m. node_at s b = Some m \<and> writable_registered m \<longrightarrow>
            Fd_notify_on_write b \<notin> set (events_since s s1))"
proof (cases "working s")
  case True
  let ?s1 = "emit [Mu_lock Driver_mu, Mu_unlock Driver_mu] s"
  have 1: "grpc_ares_ev_driver_start snap s = Inr ?s1"
    using True by (simp add: grpc_ares_ev_driver_start_def)
  have 2: "grpc_ares_ev_driver_start snap ?s1 = Inr (emit [Mu_lock Driver_mu, Mu_unlock Driver_mu] ?s1)"
    using True by (simp add: grpc_ares_ev_driver_start_def heap_simps)
  have 3: "events_since s ?s1 = [Mu_lock Driver_mu, Mu_unlock Driver_mu]"
    by (simp add: events_since_def heap_simps)
  show ?thesis
    apply (rule exI[of _ ?s1])
    using True 1 2 3 by (simp add: heap_simps)
next
  case False
  let ?s0 = "emit [Mu_lock Driver_mu] (s\<lparr>working := True\<rparr>)"
  from start_post[OF assms, of snap] False
  obtain s1 s2 where 1: "grpc_ares_ev_driver_start snap s = Inr s1"
    and n: "grpc_ares_notify_on_event_locked snap ?s0 = Inr s2"
    and p: "pass_post snap ?s0 s2" and s1: "s1 = emit [Mu_unlock Driver_mu] s2"
    by auto
  from p obtain es where w2: "working s2 = (fds s2 \<noteq> [])" and t: "trace s2 = trace ?s0 @ es"
    and pe: "\<forall>e\<in>set es. pass_event ?s0 e"
    unfolding pass_post_def by (auto simp: heap_simps)
  have 2: "grpc_ares_ev_driver_start snap s1 =
         Inr (emit (if working s1 then [Mu_lock Driver_mu, Mu_unlock Driver_mu]
                    else [Mu_lock Driver_mu, Ares_getsock, Mu_unlock Driver_mu]) s1)"
  proof (cases "working s1")
    case True
    then show ?thesis by (simp add: grpc_ares_ev_driver_start_def)
  next
    case False
    with w2 s1 have "fds s1 = []" by (simp add: heap_simps)
    moreover from this pass_post_empty[OF p] s1 have "reported snap = []" by (simp add: heap_simps)
    ultimately show ?thesis using False second_start by simp
  qed
  have ev: "events_since s s1 = Mu_lock Driver_mu # es @ [Mu_unlock Driver_mu]"
    using t s1 by (simp add: events_since_def heap_simps)
  have same: "pass_event ?s0 e = pass_event s e" for e
    by (rule pass_event_same) (simp_all add: heap_simps)
  have 3: "Fd_notify_on_read b \<notin> set (events_since s s1)"
    if "node_at s b = Some m \<and> readable_registered m" for b m
  proof
    assume "Fd_notify_on_read b \<in> set (events_since s s1)"
    with ev have "Fd_notify_on_read b \<in> set es" by simp
    with pe same have "pass_event s (Fd_notify_on_read b)" by blast
    with that show False by simp
  qed
  have 4: "Fd_notify_on_write b \<notin> set (events_since s s1)"
    if "node_at s b = Some m \<and> writable_registered m" for b m
  proof
    assume "Fd_notify_on_write b \<in> set (events_since s s1)"
    with ev have "Fd_notify_on_write b \<in> set es" by simp
    with pe same have "pass_event s (Fd_notify_on_write b)" by blast
    with that show False by simp
  qed
  have c2: "if working s then s1 = emit [Mu_lock Driver_mu, Mu_unlock Driver_mu] s
        else \<exists>s2. grpc_ares_notify_on_event_locked snap
                     (emit [Mu_lock Driver_mu] (s\<lparr>working := True\<rparr>)) = Inr s2
                \<and> s1 = emit [Mu_unlock Driver_mu] s2"
    using False n s1 by simp
  have c3: "\<forall>b m. node_at s b = Some m \<and> readable_registered m \<longrightarrow>
            Fd_notify_on_read b \<notin> set (events_since s s1)"
    using 3 by blast
  have c4: "\<forall>b m. node_at s b = Some m \<and> writable_registered m \<longrightarrow>
            Fd_notify_on_write b \<notin> set (events_since s s1)"
    using 4 by blast
  show ?thesis
    by (intro exI[of _ s1] conjI 1 c2 2 c3 c4)
qed

theorem start_idempotent_witness:
  "driver_inv one_unlinked
   \<and> node_at one_unlinked 0 =
       Some \<lparr>refs = 1, grpc_fd = 5, readable_registered = False, writable_registered = True\<rparr>
   \<and> (\<exists>s1. grpc_ares_ev_driver_start snap_5rw one_unlinked = Inr s1
        \<and> grpc_ares_ev_driver_start snap_5rw s1 =
            Inr (emit (if working s1 then [Mu_lock Driver_mu, Mu_unlock Driver_mu]
                       else [Mu_lock Driver_mu, Ares_getsock, Mu_unlock Driver_mu]) s1)
        \<and> Fd_notify_on_write 0 \<notin> set (events_since one_unlinked s1))"
proof -
  from start_idempotent[OF one_unlinked_facts(1), of snap_5rw] one_unlinked_facts(2)
  have "\<exists>s1. grpc_ares_ev_driver_start snap_5rw one_unlinked = Inr s1
        \<and> grpc_ares_ev_driver_start snap_5rw s1 =
            Inr (emit (if working s1 then [Mu_lock Driver_mu, Mu_unlock Driver_mu]
                       else [Mu_lock Driver_mu, Ares_getsock, Mu_unlock Driver_mu]) s1)
        \<and> Fd_notify_on_write 0 \<notin> set (events_since one_unlinked s1)"
    by auto
  with one_unlinked_facts(1,2) show ?thesis by blast
qed

text \<open>
  C8 (fails on the code). The claim: \<open>working\<close> is true whenever the collection is
  not empty, and every pass ending with a non-empty collection leaves it true.
  Descriptor 5 is registered for reading and writing; the read fires and the engine
  reports nothing, so the node is dropped and \<open>working\<close> becomes false; the write
  then fires with an error while the engine reports descriptor 5 again. The pass of
  that handler tracks a new node and \<open>working\<close> stays false.
\<close>

theorem working_false_with_tracked_descriptor:
  "grpc_ares_ev_driver_start snap_5rw new_driver = Inr one_tracked
   \<and> on_readable_cb 0 GRPC_ERROR_NONE snap_none one_tracked = Inr one_unlinked
   \<and> fds one_unlinked = [] \<and> working one_unlinked = False
   \<and> on_writable_cb 0 (GRPC_ERROR_CREATE ''shutdown'') snap_5r one_unlinked = Inr re_tracked
   \<and> fds re_tracked = [1] \<and> working re_tracked = False"
  unfolding re_tracked_def one_unlinked_def one_tracked_def by code_simp

text \<open>
  C8, amended. A pass sets \<open>working\<close> to false exactly when its new collection is
  empty, which is when the engine reports no descriptor, and leaves it as it was
  otherwise; this holds for the pass at the end of each completion handler too.
  Only \<^verbatim>\<open>start()\<close> sets it to true, before its pass: after a \<^verbatim>\<open>start()\<close> on a driver
  that was not working, \<open>working\<close> is true exactly when the collection is not empty.
\<close>

theorem working_after_pass:
  assumes "driver_inv s"
  shows "(\<exists>s'. grpc_ares_notify_on_event_locked snap s = Inr s'
            \<and> working s' = (working s \<and> fds s' \<noteq> [])
            \<and> (fds s' = []) = (reported snap = []))
     \<and> (\<exists>s'. grpc_ares_ev_driver_start snap s = Inr s'
            \<and> (if working s then working s' \<and> fds s' = fds s
                else working s' = (fds s' \<noteq> []) \<and> (fds s' = []) = (reported snap = [])))
     \<and> (\<forall>n. node_at s a = Some n \<and> readable_registered n \<longrightarrow>
            (\<exists>s'. on_readable_cb a err snap s = Inr s'
               \<and> working s' = (working s \<and> fds s' \<noteq> [])
               \<and> (fds s' = []) = (reported snap = [])))
     \<and> (\<forall>n. node_at s a = Some n \<and> writable_registered n \<longrightarrow>
            (\<exists>s'. on_writable_cb a err snap s = Inr s'
               \<and> working s' = (working s \<and> fds s' \<noteq> [])
               \<and> (fds s' = []) = (reported snap = [])))"
proof (intro conjI allI impI)
  from notify_post[OF assms, of snap]
  obtain s' where "grpc_ares_notify_on_event_locked snap s = Inr s'" and p: "pass_post snap s s'"
    by blast
  moreover from p have "working s' = (working s \<and> fds s' \<noteq> [])" by (simp add: pass_post_def)
  ultimately show "\<exists>s'. grpc_ares_notify_on_event_locked snap s = Inr s'
            \<and> working s' = (working s \<and> fds s' \<noteq> [])
            \<and> (fds s' = []) = (reported snap = [])"
    using pass_post_empty[OF p] by blast
next
  show "\<exists>s'. grpc_ares_ev_driver_start snap s = Inr s'
            \<and> (if working s then working s' \<and> fds s' = fds s
                else working s' = (fds s' \<noteq> []) \<and> (fds s' = []) = (reported snap = []))"
  proof (cases "working s")
    case True
    then show ?thesis by (simp add: grpc_ares_ev_driver_start_def heap_simps)
  next
    case False
    from start_post[OF assms, of snap] False
    obtain s1 s2 where 1: "grpc_ares_ev_driver_start snap s = Inr s1"
      and p: "pass_post snap (emit [Mu_lock Driver_mu] (s\<lparr>working := True\<rparr>)) s2"
      and s1: "s1 = emit [Mu_unlock Driver_mu] s2"
      by auto
    from p have "working s2 = (fds s2 \<noteq> [])" by (simp add: pass_post_def heap_simps)
    with 1 s1 False pass_post_empty[OF p] show ?thesis by (simp add: heap_simps)
  qed
next
  fix n assume "node_at s a = Some n \<and> readable_registered n"
  then have n: "node_at s a = Some n" "readable_registered n" by simp_all
  from on_readable_cb_post[OF assms n, of err snap]
  obtain s1 s2 where w: "working s1 = working s" and p: "pass_post snap s1 s2"
    and r: "on_readable_cb a err snap s = Inr (emit [Mu_unlock Driver_mu] s2)"
    by blast
  from p w have "working s2 = (working s \<and> fds s2 \<noteq> [])" by (simp add: pass_post_def)
  with r pass_post_empty[OF p]
  show "\<exists>s'. on_readable_cb a err snap s = Inr s'
               \<and> working s' = (working s \<and> fds s' \<noteq> [])
               \<and> (fds s' = []) = (reported snap = [])"
    by (simp add: heap_simps)
next
  fix n assume "node_at s a = Some n \<and> writable_registered n"
  then have n: "node_at s a = Some n" "writable_registered n" by simp_all
  from on_writable_cb_post[OF assms n, of err snap]
  obtain s1 s2 where w: "working s1 = working s" and p: "pass_post snap s1 s2"
    and r: "on_writable_cb a err snap s = Inr (emit [Mu_unlock Driver_mu] s2)"
    by blast
  from p w have "working s2 = (working s \<and> fds s2 \<noteq> [])" by (simp add: pass_post_def)
  with r pass_post_empty[OF p]
  show "\<exists>s'. on_writable_cb a err snap s = Inr s'
               \<and> working s' = (working s \<and> fds s' \<noteq> [])
               \<and> (fds s' = []) = (reported snap = [])"
    by (simp add: heap_simps)
qed

lemma reported_snap_5r: "reported snap_5r = [(5, True, False)]"
  by code_simp

theorem working_after_pass_witness:
  "driver_inv one_tracked
   \<and> node_at one_tracked 0 =
       Some \<lparr>refs = 3, grpc_fd = 5, readable_registered = True, writable_registered = True\<rparr>
   \<and> (\<exists>s'. grpc_ares_notify_on_event_locked snap_none one_tracked = Inr s'
         \<and> working s' = False \<and> fds s' = [])
   \<and> (\<exists>s'. on_readable_cb 0 GRPC_ERROR_NONE snap_5r one_tracked = Inr s'
         \<and> working s' = (working one_tracked \<and> fds s' \<noteq> []) \<and> fds s' \<noteq> [])
   \<and> (\<exists>s'. on_writable_cb 0 GRPC_ERROR_NONE snap_none one_tracked = Inr s'
         \<and> working s' = False \<and> fds s' = [])"
proof -
  from working_after_pass[OF one_tracked_facts(1), where snap = snap_none and a = 0 and err = GRPC_ERROR_NONE]
  have 1: "\<exists>s'. grpc_ares_notify_on_event_locked snap_none one_tracked = Inr s'
         \<and> working s' = False \<and> fds s' = []"
    by (auto simp: reported_snap_none)
  from working_after_pass[OF one_tracked_facts(1), where snap = snap_5r and a = 0 and err = GRPC_ERROR_NONE] one_tracked_facts(2)
  have 2: "\<exists>s'. on_readable_cb 0 GRPC_ERROR_NONE snap_5r one_tracked = Inr s'
         \<and> working s' = (working one_tracked \<and> fds s' \<noteq> []) \<and> fds s' \<noteq> []"
    by (auto simp: reported_snap_5r)
  from working_after_pass[OF one_tracked_facts(1), where snap = snap_none and a = 0 and err = GRPC_ERROR_NONE] one_tracked_facts(2)
  have 3: "\<exists>s'. on_writable_cb 0 GRPC_ERROR_NONE snap_none one_tracked = Inr s'
         \<and> working s' = False \<and> fds s' = []"
    by (auto simp: reported_snap_none)
  from 1 2 3 one_tracked_facts(1,2) show ?thesis by blast
qed

section \<open>The pollset set and the lock of the driver\<close>










section \<open>One descriptor in two slots\<close>

lemma upt_two_slots:
  assumes "i < j" "j < n"
  shows "[0..<n] = [0..<i] @ i # [Suc i..<j] @ j # [Suc j..<n]"
proof -
  have "[0..<n] = [0..<i] @ [i..<n]" using assms upt_add_eq_append[of 0 i "n - i"] by simp
  moreover have "[i..<n] = i # [Suc i..<n]" using assms by (simp add: upt_conv_Cons)
  moreover have "[Suc i..<n] = [Suc i..<j] @ [j..<n]"
    using assms upt_add_eq_append[of "Suc i" j "n - j"] by simp
  moreover have "[j..<n] = j # [Suc j..<n]" using assms by (simp add: upt_conv_Cons)
  ultimately show ?thesis by simp
qed

lemma reported_two_slots:
  assumes "i < j" "j < ARES_GETSOCK_MAXNUM"
    and "ARES_GETSOCK_READABLE (socks_bitmask snap) i \<or> ARES_GETSOCK_WRITABLE (socks_bitmask snap) i"
    and "ARES_GETSOCK_READABLE (socks_bitmask snap) j \<or> ARES_GETSOCK_WRITABLE (socks_bitmask snap) j"
  shows "\<exists>xs ys zs ri wi rj wj.
           reported snap = xs @ (socks snap i, ri, wi) # ys @ (socks snap j, rj, wj) # zs"
  unfolding reported_def upt_two_slots[OF assms(1,2)] reported_on_append
  using assms(3,4) reported_on_single[of snap i] reported_on_single[of snap j]
    reported_on_append[of snap "[i]" "[Suc i..<j] @ j # [Suc j..<ARES_GETSOCK_MAXNUM]"]
    reported_on_append[of snap "[j]" "[Suc j..<ARES_GETSOCK_MAXNUM]"]
  by (simp add: reported_on_append) blast

lemma two_wrapping:
  assumes "a \<noteq> b" "a \<in> set xs" "b \<in> set xs" "P a" "P b"
  shows "2 \<le> length (filter P xs)"
proof -
  have "{a, b} \<subseteq> set (filter P xs)" using assms by simp
  then have "card {a, b} \<le> card (set (filter P xs))" by (intro card_mono) simp_all
  also have "\<dots> \<le> length (filter P xs)" by (rule card_length)
  finally show ?thesis using assms(1) by simp
qed

lemma serves_new_or_old:
  assumes "serves s s' x t"
  shows "(x \<in> set (fds s) \<and> map_option grpc_fd (node_at s x) = Some (fst t)) \<or> length (nodes s) \<le> x"
  using assms by (auto simp: serves_def split: prod.splits if_splits option.splits)

text \<open>
  C10 (fails on the code). The claim: with one descriptor in two slots, the second
  lookup misses and a new node is created and added to the pollset set. Descriptor
  5 is reported readable in two slots to a new driver, which tracks two nodes
  wrapping it. The read of node 1 fires and the engine reports the same again:
  each slot finds a node of the old collection, and the pass creates no node and
  adds nothing to the pollset set. So does a pass run on that state directly.
\<close>

theorem duplicate_slots_reuse_two_nodes:
  "grpc_ares_ev_driver_start snap_5r_5r new_driver = Inr dup_tracked
   \<and> tracked dup_tracked =
       [Some \<lparr>refs = 2, grpc_fd = 5, readable_registered = True, writable_registered = False\<rparr>,
        Some \<lparr>refs = 2, grpc_fd = 5, readable_registered = True, writable_registered = False\<rparr>]
   \<and> fds dup_tracked = [1, 0] \<and> length (nodes dup_tracked) = 2
   \<and> on_readable_cb 1 GRPC_ERROR_NONE snap_5r_5r dup_tracked = Inr dup_refired
   \<and> events_since dup_tracked dup_refired =
       [Mu_lock (Node_mu 1), Store_readable_registered 1 False, Mu_unlock (Node_mu 1),
        Ares_process_fd 5 ARES_SOCKET_BAD, Mu_lock Driver_mu, Ares_getsock,
        Mu_lock (Node_mu 1), Fd_notify_on_read 1, Store_readable_registered 1 True,
        Mu_unlock (Node_mu 1), Mu_lock (Node_mu 0), Mu_unlock (Node_mu 0), Mu_unlock Driver_mu]
   \<and> fds dup_refired = [0, 1] \<and> length (nodes dup_refired) = 2
   \<and> map_sum id (\<lambda>s'. (events_since dup_tracked s', fds s', length (nodes s')))
         (grpc_ares_notify_on_event_locked snap_5r_5r dup_tracked) =
       Inr ([Ares_getsock, Mu_lock (Node_mu 1), Mu_unlock (Node_mu 1),
             Mu_lock (Node_mu 0), Mu_unlock (Node_mu 0)], [0, 1], 2)"
  unfolding dup_refired_def dup_tracked_def by code_simp

text \<open>
  C10, amended. When one answer of the engine has the same descriptor in two
  slots, each with a bit set, the collection after the pass has two different
  nodes wrapping that descriptor. Each reported slot, in slot order, takes the
  first node left in the old collection that wraps its descriptor, and a new node
  only when none is left; so the first node of the old collection wrapping the
  descriptor is in the new collection. Every node the pass creates is added to the
  pollset set, and nothing else is. When at most one node of the old collection
  wraps the descriptor, one of the two nodes is created by the pass.
\<close>

theorem duplicate_descriptor_two_nodes:
  assumes "driver_inv s" and "i < j" and "j < ARES_GETSOCK_MAXNUM"
    and "ARES_GETSOCK_READABLE (socks_bitmask snap) i \<or> ARES_GETSOCK_WRITABLE (socks_bitmask snap) i"
    and "ARES_GETSOCK_READABLE (socks_bitmask snap) j \<or> ARES_GETSOCK_WRITABLE (socks_bitmask snap) j"
    and "socks snap i = socks snap j"
  shows "\<exists>s' a b. grpc_ares_notify_on_event_locked snap s = Inr s'
     \<and> a \<noteq> b \<and> a \<in> set (fds s') \<and> b \<in> set (fds s')
     \<and> map_option grpc_fd (node_at s' a) = Some (socks snap i)
     \<and> map_option grpc_fd (node_at s' b) = Some (socks snap i)
     \<and> (length (filter (\<lambda>c. map_option grpc_fd (node_at s c) = Some (socks snap i)) (fds s)) \<le> 1 \<longrightarrow>
          length (nodes s) \<le> b \<and> Pollset_set_add_fd b \<in> set (events_since s s'))
     \<and> snd (assign_slots (\<lambda>c. map_option grpc_fd (node_at s c)) (reported snap)
               (fds s, length (nodes s), [])) = (length (nodes s'), fds s')
     \<and> (case find (\<lambda>c. map_option grpc_fd (node_at s c) = Some (socks snap i)) (fds s) of
           None \<Rightarrow> True
         | Some c \<Rightarrow> c \<in> set (fds s'))
     \<and> (\<forall>c\<in>set (fds s'). length (nodes s) \<le> c \<longrightarrow> Pollset_set_add_fd c \<in> set (events_since s s'))
     \<and> (\<forall>c. Pollset_set_add_fd c \<in> set (events_since s s') \<longrightarrow> length (nodes s) \<le> c)"
proof -
  let ?f = "socks snap i"
  let ?P = "\<lambda>c. map_option grpc_fd (node_at s c) = Some ?f"
  from notify_post[OF assms(1), of snap]
  obtain s' where r: "grpc_ares_notify_on_event_locked snap s = Inr s'" and p: "pass_post snap s s'"
    by blast
  from p obtain es where i': "driver_inv s'"
    and sv: "list_all2 (serves s s') (fds s') (rev (reported snap))"
    and t: "trace s' = trace s @ es"
    and pe: "\<forall>e\<in>set es. pass_event s e"
    and pa: "\<forall>a\<in>set (fds s'). length (nodes s) \<le> a \<longrightarrow> Pollset_set_add_fd a \<in> set es"
    unfolding pass_post_def by blast
  from reported_two_slots[OF assms(2-5)] assms(6)
  obtain xs ys zs ri wi rj wj where rep: "reported snap = xs @ (?f, ri, wi) # ys @ (?f, rj, wj) # zs"
    by auto
  from sv have "list_all2 (serves s s') (rev (fds s')) (reported snap)"
    by (simp add: list_all2_rev1)
  then obtain us a vs b ws where f: "rev (fds s') = us @ a # vs @ b # ws"
    and sa: "serves s s' a (?f, ri, wi)" and sb: "serves s s' b (?f, rj, wj)"
    unfolding rep by (auto simp: list_all2_append2 list_all2_Cons2)
  from i' have "distinct (rev (fds s'))" by (simp add: driver_inv_def)
  with f have ab: "a \<noteq> b" by auto
  have mem: "a \<in> set (fds s')" "b \<in> set (fds s')"
    using f by (metis in_set_conv_decomp set_rev append_Cons append_assoc)+
  have wa: "map_option grpc_fd (node_at s' a) = Some ?f" using serves_fd[OF sa] by simp
  have wb: "map_option grpc_fd (node_at s' b) = Some ?f" using serves_fd[OF sb] by simp
  have ev: "events_since s s' = es" using t by (rule events_since_append)
  have c8: "snd (assign_slots (\<lambda>c. map_option grpc_fd (node_at s c)) (reported snap)
               (fds s, length (nodes s), [])) = (length (nodes s'), fds s')"
    using assms(1) r by (rule notify_assign)
  have "(?f, ri, wi) \<in> set (reported snap)" unfolding rep by simp
  from notify_keeps_first[OF assms(1) r this]
  have c9: "case find ?P (fds s) of None \<Rightarrow> True | Some c \<Rightarrow> c \<in> set (fds s')"
    by (auto split: option.splits)
  have c10: "\<forall>c\<in>set (fds s'). length (nodes s) \<le> c \<longrightarrow> Pollset_set_add_fd c \<in> set (events_since s s')"
    using pa ev by simp
  have c11: "\<forall>c. Pollset_set_add_fd c \<in> set (events_since s s') \<longrightarrow> length (nodes s) \<le> c"
    using pe ev by auto
  have two: "\<exists>a b. a \<noteq> b \<and> a \<in> set (fds s') \<and> b \<in> set (fds s')
     \<and> map_option grpc_fd (node_at s' a) = Some ?f
     \<and> map_option grpc_fd (node_at s' b) = Some ?f
     \<and> (length (filter ?P (fds s)) \<le> 1 \<longrightarrow>
          length (nodes s) \<le> b \<and> Pollset_set_add_fd b \<in> set (events_since s s'))"
  proof (cases "length (nodes s) \<le> b")
    case True
    with pa mem have "Pollset_set_add_fd b \<in> set es" by blast
    with ab mem wa wb True ev show ?thesis by blast
  next
    case False
    with serves_new_or_old[OF sb] have ob: "b \<in> set (fds s)" "?P b" by auto
    show ?thesis
    proof (cases "length (nodes s) \<le> a")
      case True
      with pa mem have "Pollset_set_add_fd a \<in> set es" by blast
      with ab mem wa wb True ev show ?thesis
        by (intro exI[of _ b] exI[of _ a]) auto
    next
      case False
      with serves_new_or_old[OF sa] have oa: "a \<in> set (fds s)" "?P a" by auto
      from two_wrapping[OF ab oa(1) ob(1), of ?P] oa ob
      have "\<not> length (filter ?P (fds s)) \<le> 1" by simp
      with ab mem wa wb show ?thesis by blast
    qed
  qed
  then obtain a b where "a \<noteq> b \<and> a \<in> set (fds s') \<and> b \<in> set (fds s')
     \<and> map_option grpc_fd (node_at s' a) = Some ?f
     \<and> map_option grpc_fd (node_at s' b) = Some ?f
     \<and> (length (filter ?P (fds s)) \<le> 1 \<longrightarrow>
          length (nodes s) \<le> b \<and> Pollset_set_add_fd b \<in> set (events_since s s'))" by blast
  then show ?thesis
    using r c8 c9 c10 c11 by (intro exI[of _ s'] exI[of _ a] exI[of _ b]) simp
qed

lemma snap_5r_5r_bits:
  "ARES_GETSOCK_READABLE (socks_bitmask snap_5r_5r) 0"
  "ARES_GETSOCK_READABLE (socks_bitmask snap_5r_5r) 1"
  "socks snap_5r_5r 0 = 5" "socks snap_5r_5r 1 = 5"
  "(1::nat) < ARES_GETSOCK_MAXNUM"
  by code_simp+

theorem duplicate_descriptor_two_nodes_witness:
  "driver_inv one_tracked \<and> (0::nat) < 1 \<and> 1 < ARES_GETSOCK_MAXNUM
   \<and> ARES_GETSOCK_READABLE (socks_bitmask snap_5r_5r) 0
   \<and> ARES_GETSOCK_READABLE (socks_bitmask snap_5r_5r) 1
   \<and> socks snap_5r_5r 0 = socks snap_5r_5r 1
   \<and> fds one_tracked = [0] \<and> length (nodes one_tracked) = 1
   \<and> (\<exists>s'. grpc_ares_notify_on_event_locked snap_5r_5r one_tracked = Inr s'
        \<and> fds s' = [1, 0] \<and> length (nodes s') = 2
        \<and> map_option grpc_fd (node_at s' 0) = Some 5
        \<and> map_option grpc_fd (node_at s' 1) = Some 5
        \<and> Pollset_set_add_fd 1 \<in> set (events_since one_tracked s')
        \<and> Pollset_set_add_fd 0 \<notin> set (events_since one_tracked s'))"
proof -
  from duplicate_descriptor_two_nodes[OF one_tracked_facts(1), where i = 0 and j = 1 and snap = snap_5r_5r]
    snap_5r_5r_bits
  obtain s' a b where r: "grpc_ares_notify_on_event_locked snap_5r_5r one_tracked = Inr s'"
    and ab: "a \<noteq> b" "a \<in> set (fds s')" "b \<in> set (fds s')"
      "map_option grpc_fd (node_at s' a) = Some 5" "map_option grpc_fd (node_at s' b) = Some 5"
    and asg: "snd (assign_slots (\<lambda>c. map_option grpc_fd (node_at one_tracked c)) (reported snap_5r_5r)
               (fds one_tracked, length (nodes one_tracked), [])) = (length (nodes s'), fds s')"
    and add: "\<forall>c\<in>set (fds s'). length (nodes one_tracked) \<le> c \<longrightarrow>
                 Pollset_set_add_fd c \<in> set (events_since one_tracked s')"
    and only: "\<forall>c. Pollset_set_add_fd c \<in> set (events_since one_tracked s') \<longrightarrow>
                 length (nodes one_tracked) \<le> c"
    by auto
  from asg have f: "fds s' = [1, 0]" "length (nodes s') = 2"
    by (simp_all add: reported_snap_5r_5r one_tracked_facts one_tracked_length)
  from ab f have w: "map_option grpc_fd (node_at s' 0) = Some 5" "map_option grpc_fd (node_at s' 1) = Some 5"
    by auto
  from add f have p1: "Pollset_set_add_fd 1 \<in> set (events_since one_tracked s')"
    by (simp add: one_tracked_length)
  from only have p0: "Pollset_set_add_fd 0 \<notin> set (events_since one_tracked s')"
    by (auto simp: one_tracked_length)
  from r f w p1 p0 one_tracked_facts(1,3) one_tracked_length snap_5r_5r_bits show ?thesis
    by auto
qed

end
